theory Spec2Isabelle
  imports Main "HOL-Library.List_Lexorder"
begin

section \<open>Python strings\<close>

text \<open>
  A Python \<^verbatim>\<open>str\<close> is a sequence of Unicode code points and \<^verbatim>\<open>len\<close> counts code
  points, so a string is modelled as a list of code-point numbers.  \<open>U\<close> turns an ASCII
  literal into that representation.
\<close>

type_synonym pystr = "nat list"

definition U :: "string \<Rightarrow> pystr" where
  "U s = map of_char s"

text \<open>The characters for which \<^verbatim>\<open>str.isspace\<close> holds.\<close>

definition isspace :: "nat \<Rightarrow> bool" where
  "isspace c \<longleftrightarrow>
     (9 \<le> c \<and> c \<le> 13) \<or> (28 \<le> c \<and> c \<le> 32) \<or> c = 133 \<or> c = 160 \<or> c = 5760 \<or>
     (8192 \<le> c \<and> c \<le> 8202) \<or> c = 8232 \<or> c = 8233 \<or> c = 8239 \<or> c = 8287 \<or> c = 12288"

text \<open>\<^verbatim>\<open>s.strip()\<close>, \<^verbatim>\<open>s.split()\<close> (no argument: runs of whitespace separate the
  words, and no empty word is produced), \<^verbatim>\<open>sep.join(xs)\<close>, \<^verbatim>\<open>s.rstrip(chars)\<close>,
  \<^verbatim>\<open>s.startswith(p)\<close>, \<^verbatim>\<open>s.endswith(p)\<close>, \<^verbatim>\<open>sub in s\<close> and \<^verbatim>\<open>s.split(c)\<close> for a
  one-character separator.\<close>

definition str_strip :: "pystr \<Rightarrow> pystr" where
  "str_strip s = rev (dropWhile isspace (rev (dropWhile isspace s)))"

fun split_ws :: "pystr \<Rightarrow> pystr \<Rightarrow> pystr list" where
  "split_ws word [] = (if word = [] then [] else [word])"
| "split_ws word (c # cs) =
     (if isspace c then (if word = [] then split_ws [] cs else word # split_ws [] cs)
      else split_ws (word @ [c]) cs)"

definition str_split :: "pystr \<Rightarrow> pystr list" where
  "str_split s = split_ws [] s"

fun str_join :: "pystr \<Rightarrow> pystr list \<Rightarrow> pystr" where
  "str_join sep [] = []"
| "str_join sep [x] = x"
| "str_join sep (x # y # ys) = x @ sep @ str_join sep (y # ys)"

definition rstrip :: "pystr \<Rightarrow> pystr \<Rightarrow> pystr" where
  "rstrip chars s = rev (dropWhile (\<lambda>c. c \<in> set chars) (rev s))"

definition startswith :: "pystr \<Rightarrow> pystr \<Rightarrow> bool" where
  "startswith s p \<longleftrightarrow> take (length p) s = p"

definition endswith :: "pystr \<Rightarrow> pystr \<Rightarrow> bool" where
  "endswith s p \<longleftrightarrow> length p \<le> length s \<and> drop (length s - length p) s = p"

fun contains :: "pystr \<Rightarrow> pystr \<Rightarrow> bool" where
  "contains sub [] = (sub = [])"
| "contains sub (c # cs) = (startswith (c # cs) sub \<or> contains sub cs)"

fun split_on :: "nat \<Rightarrow> pystr \<Rightarrow> pystr list" where
  "split_on sep [] = [[]]"
| "split_on sep (c # cs) =
     (if c = sep then [] # split_on sep cs
      else (case split_on sep cs of [] \<Rightarrow> [[c]] | p # ps \<Rightarrow> (c # p) # ps))"

text \<open>
  \<^verbatim>\<open>xs[i:j]\<close>: a negative index counts from the end, and both indices are clipped to
  the bounds of the sequence.
\<close>

definition slice_index :: "int \<Rightarrow> int \<Rightarrow> int" where
  "slice_index n i = (if i < 0 then max 0 (n + i) else min n i)"

definition py_slice :: "'a list \<Rightarrow> int \<Rightarrow> int \<Rightarrow> 'a list" where
  "py_slice xs i j =
     (let n = int (length xs); a = slice_index n i; b = slice_index n j
      in take (nat (b - a)) (drop (nat a) xs))"

text \<open>\<^verbatim>\<open>str(n)\<close> for an integer: its decimal digits.\<close>

fun str_nat :: "nat \<Rightarrow> pystr" where
  "str_nat n = (if n < 10 then [48 + n] else str_nat (n div 10) @ [48 + n mod 10])"

definition str_int :: "int \<Rightarrow> pystr" where
  "str_int i = (if i < 0 then U ''-'' @ str_nat (nat (- i)) else str_nat (nat i))"

section \<open>Libraries, network and configuration\<close>

text \<open>
  The exceptions the crawler distinguishes: \<^verbatim>\<open>httpx.HTTPStatusError\<close> with the response's
  status code, \<^verbatim>\<open>httpx.RequestError\<close> with the name of the concrete exception class,
  and any other \<^verbatim>\<open>Exception\<close> with its message.
\<close>

datatype exn = HTTPStatusError int | RequestError pystr | Exception pystr

text \<open>
  \<^verbatim>\<open>BeautifulSoup(html, "lxml")\<close> returns a tree.  A node is a \<^verbatim>\<open>Tag\<close> with its name,
  its attributes and its children, or a \<^verbatim>\<open>NavigableString\<close> (text), or a string that is
  not text: a \<^verbatim>\<open>Comment\<close>, a doctype, a declaration or a processing instruction, which
  \<^verbatim>\<open>get_text\<close> leaves out.  The root is the \<^verbatim>\<open>BeautifulSoup\<close> object, a tag named
  \<^verbatim>\<open>[document]\<close>.
\<close>

datatype node =
    Tag pystr "(pystr \<times> pystr) list" "node list"
  | NavigableString pystr
  | Comment pystr

text \<open>A compiled \<^verbatim>\<open>re.Pattern\<close>: its source and whether \<^verbatim>\<open>re.IGNORECASE\<close> is set.\<close>

datatype pattern = Pattern pystr bool

text \<open>Of an \<^verbatim>\<open>httpx.Response\<close> the worker reads the \<^verbatim>\<open>content-type\<close> header and the
  decoded text.\<close>

record response =
  content_type_header :: "pystr option"
  response_text :: pystr

text \<open>config.py.\<close>

record Settings =
  crawl_concurrency :: int
  max_pages_per_run :: int
  snippet_context :: int

text \<open>
  What the code calls but does not define is a parameter of the model:
  \<^item> \<open>BeautifulSoup\<close>: the parser; it may raise;
  \<^item> \<open>re_error\<close>: the message of the \<^verbatim>\<open>re.error\<close> that \<^verbatim>\<open>re.compile\<close> raises for a
    pattern source, \<open>None\<close> when it compiles;
  \<^item> \<open>finditer\<close>: for \<^verbatim>\<open>pattern.finditer(text)\<close>, the \<^verbatim>\<open>start()\<close> and \<^verbatim>\<open>group(0)\<close> of
    each match, in order; \<^verbatim>\<open>pattern.search(text)\<close> finds a match exactly when this list
    is not empty;
  \<^item> \<open>host_error\<close>: the message of the \<^verbatim>\<open>ValueError\<close> that \<^verbatim>\<open>urllib.parse.urlsplit\<close> raises
    for a non-empty network location (its bracket and normalisation checks), \<open>None\<close>
    when it accepts it;
  \<^item> \<open>client_error\<close>: the exception that constructing \<^verbatim>\<open>httpx.AsyncClient\<close> raises, if
    any;
  \<^item> \<open>fetch\<close>: \<^verbatim>\<open>client.get(url)\<close> followed by \<^verbatim>\<open>response.raise_for_status()\<close>: the
    exception that either raises, or the response;
  \<^item> \<open>settings\<close>: the configuration values.
\<close>

record env =
  settings :: Settings
  BeautifulSoup :: "pystr \<Rightarrow> exn + node"
  re_error :: "pystr \<Rightarrow> pystr option"
  finditer :: "pattern \<Rightarrow> pystr \<Rightarrow> (int \<times> pystr) list"
  host_error :: "pystr \<Rightarrow> pystr option"
  client_error :: "exn option"
  fetch :: "pystr \<Rightarrow> exn + response"

section \<open>Keyword rules (matcher.py)\<close>

record MatchResult =
  mr_keyword :: pystr
  mr_matched_text :: pystr
  mr_position :: int

type_synonym Rule = "pystr \<times> pattern"

text \<open>\<^verbatim>\<open>re.escape\<close> puts a backslash before each of the characters
  \<^verbatim>\<open>()[]{}?*+-|^$\.&~#\<close>, space, tab, newline, carriage return, vertical tab and form
  feed.\<close>

definition special_chars :: "nat list" where
  "special_chars =
     [40, 41, 91, 93, 123, 125, 63, 42, 43, 45, 124, 94, 36, 92, 46, 38, 126, 35,
      32, 9, 10, 13, 11, 12]"

definition re_escape :: "pystr \<Rightarrow> pystr" where
  "re_escape s = concat (map (\<lambda>c. if c \<in> set special_chars then [92, c] else [c]) s)"

definition re_compile :: "env \<Rightarrow> pystr \<Rightarrow> bool \<Rightarrow> exn + pattern" where
  "re_compile E source ignorecase =
     (case re_error E source of
        Some msg \<Rightarrow> Inl (Exception msg)
      | None \<Rightarrow> Inr (Pattern source ignorecase))"

definition compile_rule :: "env \<Rightarrow> pystr \<Rightarrow> exn + Rule" where
  "compile_rule E keyword =
     (let kw = str_strip keyword in
      if startswith kw (U ''/'') \<and> endswith kw (U ''/'') \<and> length kw > 2 then
        (case re_compile E (py_slice kw 1 (- 1)) True of
           Inl e \<Rightarrow> Inl e
         | Inr pattern \<Rightarrow> Inr (kw, pattern))
      else if endswith kw (U ''*'') then
        (let prefix = re_escape (py_slice kw 0 (- 1)) in
         case re_compile E ([92] @ U ''b'' @ prefix @ [92] @ U ''w*'') True of
           Inl e \<Rightarrow> Inl e
         | Inr pattern \<Rightarrow> Inr (kw, pattern))
      else
        (let escaped = re_escape kw in
         case re_compile E ([92] @ U ''b'' @ escaped @ [92] @ U ''b'') True of
           Inl e \<Rightarrow> Inl e
         | Inr pattern \<Rightarrow> Inr (kw, pattern)))"

text \<open>\<^verbatim>\<open>[compile_rule(k) for k in keywords if k.strip()]\<close>: the first rule that fails to
  compile raises.\<close>

fun compile_rules :: "env \<Rightarrow> pystr list \<Rightarrow> exn + Rule list" where
  "compile_rules E [] = Inr []"
| "compile_rules E (k # keywords) =
     (if str_strip k \<noteq> [] then
        (case compile_rule E k of
           Inl e \<Rightarrow> Inl e
         | Inr rule \<Rightarrow>
             (case compile_rules E keywords of
                Inl e \<Rightarrow> Inl e
              | Inr rules \<Rightarrow> Inr (rule # rules)))
      else compile_rules E keywords)"

text \<open>\<^verbatim>\<open>results.sort(key=lambda r: r.position)\<close> is a stable sort, as \<open>sort_key\<close> is.\<close>

definition find_matches :: "env \<Rightarrow> pystr \<Rightarrow> Rule list \<Rightarrow> MatchResult list" where
  "find_matches E text rules =
     sort_key mr_position
       (concat (map (\<lambda>(kw, pattern).
          map (\<lambda>(start, group0). \<lparr>mr_keyword = kw, mr_matched_text = group0, mr_position = start\<rparr>)
            (finditer E pattern text)) rules))"

definition any_match :: "env \<Rightarrow> pystr \<Rightarrow> Rule list \<Rightarrow> bool" where
  "any_match E text rules = (\<exists>(kw, pattern) \<in> set rules. finditer E pattern text \<noteq> [])"

section \<open>URLs (urllib.parse)\<close>

text \<open>
  The splitting and joining of URLs is the standard library's.  It is written out here
  after the algorithm of \<^verbatim>\<open>urllib.parse\<close> in CPython 3.11: \<^verbatim>\<open>urlsplit\<close>, \<^verbatim>\<open>urlparse\<close>,
  \<^verbatim>\<open>urlunsplit\<close>, \<^verbatim>\<open>urlunparse\<close> and \<^verbatim>\<open>urljoin\<close>, on \<^verbatim>\<open>str\<close> arguments.
\<close>

definition uses_relative :: "pystr list" where
  "uses_relative = map U
     ['''', ''ftp'', ''http'', ''gopher'', ''nntp'', ''imap'', ''wais'', ''file'', ''https'',
      ''shttp'', ''mms'', ''prospero'', ''rtsp'', ''rtspu'', ''sftp'', ''svn'', ''svn+ssh'',
      ''ws'', ''wss'']"

definition uses_netloc :: "pystr list" where
  "uses_netloc = map U
     ['''', ''ftp'', ''http'', ''gopher'', ''nntp'', ''telnet'', ''imap'', ''wais'', ''file'',
      ''mms'', ''https'', ''shttp'', ''snews'', ''prospero'', ''rtsp'', ''rtspu'', ''rsync'',
      ''svn'', ''svn+ssh'', ''sftp'', ''nfs'', ''git'', ''git+ssh'', ''ws'', ''wss'']"

definition uses_params :: "pystr list" where
  "uses_params = map U
     ['''', ''ftp'', ''hdl'', ''prospero'', ''http'', ''imap'', ''https'', ''shttp'', ''rtsp'',
      ''rtspu'', ''sip'', ''sips'', ''mms'', ''sftp'', ''tel'']"

definition ascii_alpha :: "nat \<Rightarrow> bool" where
  "ascii_alpha c \<longleftrightarrow> (65 \<le> c \<and> c \<le> 90) \<or> (97 \<le> c \<and> c \<le> 122)"

definition scheme_char :: "nat \<Rightarrow> bool" where
  "scheme_char c \<longleftrightarrow> ascii_alpha c \<or> (48 \<le> c \<and> c \<le> 57) \<or> c = 43 \<or> c = 45 \<or> c = 46"

definition ascii_lower :: "nat \<Rightarrow> nat" where
  "ascii_lower c = (if 65 \<le> c \<and> c \<le> 90 then c + 32 else c)"

text \<open>\<^verbatim>\<open>s.split(c, 1)\<close> when \<open>c\<close> occurs in \<open>s\<close>: the text before its first occurrence and
  the text after it.\<close>

definition split_first :: "nat \<Rightarrow> pystr \<Rightarrow> pystr \<times> pystr" where
  "split_first c s = (takeWhile (\<lambda>x. x \<noteq> c) s, drop 1 (dropWhile (\<lambda>x. x \<noteq> c) s))"

text \<open>\<^verbatim>\<open>_splitnetloc(url, 2)\<close>: the network location ends at the first of \<^verbatim>\<open>/?#\<close>.\<close>

definition splitnetloc :: "pystr \<Rightarrow> pystr \<times> pystr" where
  "splitnetloc url =
     (takeWhile (\<lambda>c. c \<notin> set (U ''/?#'')) (drop 2 url),
      dropWhile (\<lambda>c. c \<notin> set (U ''/?#'')) (drop 2 url))"

text \<open>
  \<^verbatim>\<open>urlsplit(url, scheme)\<close>.  Leading C0 control characters and spaces are stripped, tab,
  carriage return and newline are removed; a leading run of scheme characters that starts
  with a letter and ends at the first colon is the scheme, lower-cased; after \<^verbatim>\<open>//\<close>
  comes the network location; the fragment starts at the first \<^verbatim>\<open>#\<close> and the query at
  the first \<^verbatim>\<open>?\<close> of what is left.  The result is scheme, network location, path, query
  and fragment.
\<close>

definition urlsplit :: "env \<Rightarrow> pystr \<Rightarrow> pystr \<Rightarrow> exn + (pystr \<times> pystr \<times> pystr \<times> pystr \<times> pystr)" where
  "urlsplit E url0 scheme0 =
     (let url = dropWhile (\<lambda>c. c \<le> 32) url0;
          sch = rev (dropWhile (\<lambda>c. c \<le> 32) (rev (dropWhile (\<lambda>c. c \<le> 32) scheme0)));
          url = filter (\<lambda>c. c \<notin> {9, 13, 10}) url;
          sch = filter (\<lambda>c. c \<notin> {9, 13, 10}) sch;
          i = length (takeWhile (\<lambda>c. c \<noteq> 58) url);
          (sch, url) =
            (if i < length url \<and> i > 0 \<and> ascii_alpha (hd url) \<and> list_all scheme_char (take i url)
             then (map ascii_lower (take i url), drop (i + 1) url)
             else (sch, url));
          (loc, url) = (if take 2 url = U ''//'' then splitnetloc url else ([], url));
          (url, frag) = (if 35 \<in> set url then split_first 35 url else (url, []));
          (url, qry) = (if 63 \<in> set url then split_first 63 url else (url, []))
      in case (if loc = [] then None else host_error E loc) of
           Some msg \<Rightarrow> Inl (Exception msg)
         | None \<Rightarrow> Inr (sch, loc, url, qry, frag))"

record ParseResult =
  scheme :: pystr
  netloc :: pystr
  path :: pystr
  params :: pystr
  query :: pystr
  fragment :: pystr

text \<open>\<^verbatim>\<open>_splitparams\<close>: the parameters start at the first \<^verbatim>\<open>;\<close> of the last path
  segment.\<close>

definition splitparams :: "pystr \<Rightarrow> pystr \<times> pystr" where
  "splitparams url =
     (if 47 \<in> set url then
        (let r = length url - 1 - length (takeWhile (\<lambda>c. c \<noteq> 47) (rev url));
             tail = drop r url
         in if 59 \<in> set tail
            then (take r url @ takeWhile (\<lambda>c. c \<noteq> 59) tail,
                  drop 1 (dropWhile (\<lambda>c. c \<noteq> 59) tail))
            else (url, []))
      else split_first 59 url)"

definition urlparse :: "env \<Rightarrow> pystr \<Rightarrow> pystr \<Rightarrow> exn + ParseResult" where
  "urlparse E url scheme0 =
     (case urlsplit E url scheme0 of
        Inl e \<Rightarrow> Inl e
      | Inr (sch, loc, url, qry, frag) \<Rightarrow>
          let (url, prm) = (if sch \<in> set uses_params \<and> 59 \<in> set url then splitparams url
                            else (url, []))
          in Inr \<lparr>scheme = sch, netloc = loc, path = url, params = prm, query = qry,
                   fragment = frag\<rparr>)"

definition urlunsplit :: "pystr \<Rightarrow> pystr \<Rightarrow> pystr \<Rightarrow> pystr \<Rightarrow> pystr \<Rightarrow> pystr" where
  "urlunsplit sch loc url0 qry frag =
     (let url = (if loc \<noteq> [] \<or> (sch \<noteq> [] \<and> sch \<in> set uses_netloc \<and> take 2 url0 \<noteq> U ''//'')
                 then U ''//'' @ loc @
                      (if url0 \<noteq> [] \<and> take 1 url0 \<noteq> U ''/'' then U ''/'' @ url0 else url0)
                 else url0);
          url = (if sch \<noteq> [] then sch @ U '':'' @ url else url);
          url = (if qry \<noteq> [] then url @ U ''?'' @ qry else url);
          url = (if frag \<noteq> [] then url @ U ''#'' @ frag else url)
      in url)"

text \<open>\<^verbatim>\<open>urlunparse\<close>, which is also \<^verbatim>\<open>ParseResult.geturl()\<close>.\<close>

definition urlunparse :: "ParseResult \<Rightarrow> pystr" where
  "urlunparse p =
     urlunsplit (scheme p) (netloc p)
       (if params p \<noteq> [] then path p @ U '';'' @ params p else path p) (query p) (fragment p)"

definition geturl :: "ParseResult \<Rightarrow> pystr" where
  "geturl p = urlunparse p"

text \<open>The loop of \<^verbatim>\<open>urljoin\<close> that resolves \<^verbatim>\<open>.\<close> and \<^verbatim>\<open>..\<close>; a \<^verbatim>\<open>..\<close> with nothing to pop is
  ignored.\<close>

fun resolve_path :: "pystr list \<Rightarrow> pystr list \<Rightarrow> pystr list" where
  "resolve_path [] resolved_path = resolved_path"
| "resolve_path (seg # segments) resolved_path =
     (if seg = U ''..'' then resolve_path segments (butlast resolved_path)
      else if seg = U ''.'' then resolve_path segments resolved_path
      else resolve_path segments (resolved_path @ [seg]))"

text \<open>\<^verbatim>\<open>segments[1:-1] = filter(None, segments[1:-1])\<close>.\<close>

definition drop_empty_middle :: "pystr list \<Rightarrow> pystr list" where
  "drop_empty_middle segments =
     (if length segments < 2 then segments
      else hd segments # filter (\<lambda>s. s \<noteq> []) (butlast (tl segments)) @ [last segments])"

definition urljoin :: "env \<Rightarrow> pystr \<Rightarrow> pystr \<Rightarrow> exn + pystr" where
  "urljoin E base url =
     (if base = [] then Inr url
      else if url = [] then Inr base
      else case urlparse E base [] of
        Inl e \<Rightarrow> Inl e
      | Inr b \<Rightarrow>
        (case urlparse E url (scheme b) of
           Inl e \<Rightarrow> Inl e
         | Inr u \<Rightarrow>
           if scheme u \<noteq> scheme b \<or> scheme u \<notin> set uses_relative then Inr url
           else if scheme u \<in> set uses_netloc \<and> netloc u \<noteq> [] then Inr (urlunparse u)
           else
             let loc = (if scheme u \<in> set uses_netloc then netloc b else netloc u) in
             if path u = [] \<and> params u = [] then
               Inr (urlunparse (u\<lparr>netloc := loc, path := path b, params := params b,
                                   query := (if query u = [] then query b else query u)\<rparr>))
             else
               let base_parts = split_on 47 (path b);
                   base_parts = (if last base_parts \<noteq> [] then butlast base_parts
                                 else base_parts);
                   segments = (if take 1 (path u) = U ''/'' then split_on 47 (path u)
                               else drop_empty_middle (base_parts @ split_on 47 (path u)));
                   resolved_path = resolve_path segments [];
                   resolved_path = (if last segments \<in> {U ''.'', U ''..''}
                                    then resolved_path @ [[]] else resolved_path);
                   joined = str_join (U ''/'') resolved_path
               in Inr (urlunparse (u\<lparr>netloc := loc,
                                       path := (if joined = [] then U ''/'' else joined)\<rparr>))))"

section \<open>URL helpers (crawler.py)\<close>

definition normalise_url :: "env \<Rightarrow> pystr \<Rightarrow> exn + pystr" where
  "normalise_url E url =
     (case urlparse E url [] of
        Inl e \<Rightarrow> Inl e
      | Inr p \<Rightarrow> Inr (rstrip (U ''/'') (geturl (p\<lparr>fragment := []\<rparr>))))"

definition same_host :: "env \<Rightarrow> pystr \<Rightarrow> pystr \<Rightarrow> exn + bool" where
  "same_host E url loc =
     (case urlparse E url [] of
        Inl e \<Rightarrow> Inl e
      | Inr p \<Rightarrow> Inr (netloc p = loc))"

section \<open>The extractor (extractor.py)\<close>

definition ALLOWED_TAGS :: "pystr list" where
  "ALLOWED_TAGS = map U
     [''p'', ''pre'', ''blockquote'',
      ''h1'', ''h2'', ''h3'', ''h4'', ''h5'', ''h6'',
      ''li'', ''dt'', ''dd'',
      ''td'', ''th'', ''caption'',
      ''article'', ''section'', ''main'',
      ''a'', ''span'', ''strong'', ''em'', ''b'', ''i'', ''u'', ''label'', ''div'',
      ''q'', ''figcaption'']"

definition EXCLUDED_CONTAINERS :: "pystr list" where
  "EXCLUDED_CONTAINERS = map U
     [''nav'', ''header'', ''footer'', ''aside'', ''script'', ''style'', ''noscript'',
      ''template'']"

text \<open>
  \<open>descendants\<close> lists the nodes below a node in document order, each with the names
  of its ancestors, nearest first (what \<^verbatim>\<open>el.parents\<close> enumerates).  \<open>find_all\<close> keeps
  the tags whose name is one of the given names.
\<close>

fun descendants :: "pystr list \<Rightarrow> node \<Rightarrow> (pystr list \<times> node) list" where
  "descendants parents (Tag name attrs children) =
     concat (map (\<lambda>c. (name # parents, c) # descendants (name # parents) c) children)"
| "descendants parents (NavigableString s) = []"
| "descendants parents (Comment s) = []"

fun is_named :: "pystr list \<Rightarrow> node \<Rightarrow> bool" where
  "is_named names (Tag name attrs children) = (name \<in> set names)"
| "is_named names (NavigableString s) = False"
| "is_named names (Comment s) = False"

definition find_all :: "pystr list \<Rightarrow> node \<Rightarrow> (pystr list \<times> node) list" where
  "find_all names soup = filter (\<lambda>(parents, el). is_named names el) (descendants [] soup)"

text \<open>
  \<^verbatim>\<open>for el in soup.find_all(tag_name): el.decompose()\<close> removes every tag of that name,
  with its subtree, from the document.
\<close>

fun decompose_all :: "pystr \<Rightarrow> node \<Rightarrow> node" where
  "decompose_all tag_name (Tag name attrs children) =
     Tag name attrs
       (map (decompose_all tag_name) (filter (\<lambda>c. \<not> is_named [tag_name] c) children))"
| "decompose_all tag_name (NavigableString s) = NavigableString s"
| "decompose_all tag_name (Comment s) = Comment s"

text \<open>\<^verbatim>\<open>el.get_text(separator=" ", strip=True)\<close>: the text strings below the element
  (comments and the like are not among them), each stripped, the empty ones left out,
  joined by the separator.\<close>

fun strings :: "node \<Rightarrow> pystr list" where
  "strings (Tag name attrs children) = concat (map strings children)"
| "strings (NavigableString s) = [s]"
| "strings (Comment s) = []"

definition get_text :: "pystr \<Rightarrow> node \<Rightarrow> pystr" where
  "get_text separator el =
     str_join separator (filter (\<lambda>s. s \<noteq> []) (map str_strip (strings el)))"

fun node_name :: "node \<Rightarrow> pystr" where
  "node_name (Tag name attrs children) = name"
| "node_name (NavigableString s) = []"
| "node_name (Comment s) = []"

fun node_attrs :: "node \<Rightarrow> (pystr \<times> pystr) list" where
  "node_attrs (Tag name attrs children) = attrs"
| "node_attrs (NavigableString s) = []"
| "node_attrs (Comment s) = []"

definition has_allowed_ancestor :: "pystr list \<Rightarrow> bool" where
  "has_allowed_ancestor parents = (\<exists>p \<in> set parents. p \<in> set ALLOWED_TAGS)"

record TextSegment =
  seg_text :: pystr
  seg_tag :: pystr
  char_offset :: int

text \<open>The body of the \<^verbatim>\<open>for el in soup.find_all(ALLOWED_TAGS)\<close> loop of
  \<^verbatim>\<open>extract_segments\<close>, with its two variables \<open>segments\<close> and \<open>running_offset\<close>.\<close>

definition segment_text :: "node \<Rightarrow> pystr" where
  "segment_text el = str_join (U '' '') (str_split (get_text (U '' '') el))"

fun segments_loop ::
  "(pystr list \<times> node) list \<Rightarrow> TextSegment list \<Rightarrow> int \<Rightarrow> TextSegment list" where
  "segments_loop [] segments running_offset = segments"
| "segments_loop ((parents, el) # rest) segments running_offset =
     (if has_allowed_ancestor parents then segments_loop rest segments running_offset
      else let text = segment_text el in
        if text = [] then segments_loop rest segments running_offset
        else segments_loop rest
               (segments @ [\<lparr>seg_text = text, seg_tag = node_name el,
                              char_offset = running_offset\<rparr>])
               (running_offset + int (length text) + 1))"

definition extract_segments :: "env \<Rightarrow> pystr \<Rightarrow> exn + TextSegment list" where
  "extract_segments E html =
     (case BeautifulSoup E html of
        Inl e \<Rightarrow> Inl e
      | Inr soup \<Rightarrow>
          let soup = fold decompose_all EXCLUDED_CONTAINERS soup
          in Inr (segments_loop (find_all ALLOWED_TAGS soup) [] 0))"

text \<open>
  \<^verbatim>\<open>soup.find_all("a", href=True)\<close> gives the \<^verbatim>\<open>a\<close> tags that have an \<^verbatim>\<open>href\<close>
  attribute; \<open>hrefs\<close> lists the values of \<^verbatim>\<open>a["href"]\<close> in document order.
\<close>

definition hrefs :: "node \<Rightarrow> pystr list" where
  "hrefs soup =
     concat (map (\<lambda>(parents, a). case map_of (node_attrs a) (U ''href'') of
                                     None \<Rightarrow> [] | Some v \<Rightarrow> [v])
                 (find_all [U ''a''] soup))"

text \<open>The loop of \<^verbatim>\<open>extract_links\<close> over the \<^verbatim>\<open>href\<close> values, with its variables \<open>seen\<close>
  and \<open>links\<close>.\<close>

fun links_loop ::
  "env \<Rightarrow> pystr \<Rightarrow> ParseResult \<Rightarrow> pystr list \<Rightarrow> pystr set \<Rightarrow> pystr list \<Rightarrow> exn + pystr list"
  where
  "links_loop E base_url base_parsed [] seen links = Inr links"
| "links_loop E base_url base_parsed (h # rest) seen links =
     (let href = str_strip h in
      if href = [] \<or> startswith href (U ''#'') \<or> startswith href (U ''javascript:'')
         \<or> startswith href (U ''mailto:'') \<or> startswith href (U ''tel:'')
      then links_loop E base_url base_parsed rest seen links
      else case urljoin E base_url href of
        Inl e \<Rightarrow> Inl e
      | Inr full \<Rightarrow>
        (case urlparse E full [] of
           Inl e \<Rightarrow> Inl e
         | Inr parsed \<Rightarrow>
           if scheme parsed \<notin> {U ''http'', U ''https''}
           then links_loop E base_url base_parsed rest seen links
           else if netloc parsed \<noteq> netloc base_parsed
           then links_loop E base_url base_parsed rest seen links
           else
             let normalised = rstrip (U ''/'') (geturl (parsed\<lparr>fragment := []\<rparr>)) in
             if normalised \<notin> seen
             then links_loop E base_url base_parsed rest (insert normalised seen)
                    (links @ [normalised])
             else links_loop E base_url base_parsed rest seen links))"

definition extract_links :: "env \<Rightarrow> pystr \<Rightarrow> pystr \<Rightarrow> exn + pystr list" where
  "extract_links E html base_url =
     (case BeautifulSoup E html of
        Inl e \<Rightarrow> Inl e
      | Inr soup \<Rightarrow>
        (case urlparse E base_url [] of
           Inl e \<Rightarrow> Inl e
         | Inr base_parsed \<Rightarrow> links_loop E base_url base_parsed (hrefs soup) {} []))"

section \<open>The snippet builder (crawler.py)\<close>

text \<open>
  \<^verbatim>\<open>ctx or settings.snippet_context\<close> takes the setting when \<open>ctx\<close> is \<^verbatim>\<open>None\<close> or \<open>0\<close>.
  The ellipsis is the single code point U+2026.
\<close>

definition ellipsis :: pystr where
  "ellipsis = [8230]"

definition make_snippet :: "env \<Rightarrow> pystr \<Rightarrow> int \<Rightarrow> int option \<Rightarrow> pystr" where
  "make_snippet E text pos ctx =
     (let ctx = (case ctx of None \<Rightarrow> snippet_context (settings E)
                 | Some c \<Rightarrow> if c = 0 then snippet_context (settings E) else c);
          start = max 0 (pos - ctx);
          end = min (int (length text)) (pos + ctx);
          snippet = py_slice text start end;
          snippet = (if start > 0 then ellipsis @ snippet else snippet);
          snippet = (if end < int (length text) then snippet @ ellipsis else snippet)
      in snippet)"

text \<open>The virtual page text: all segment texts joined by single spaces.\<close>

definition page_text :: "TextSegment list \<Rightarrow> pystr" where
  "page_text segments = str_join (U '' '') (map seg_text segments)"

section \<open>The store (crud.py)\<close>

text \<open>
  Modelled from the spec: the tables' columns and defaults; the schema is not under
  \<^verbatim>\<open>src/\<close>.  A row of \<^verbatim>\<open>crawl_runs\<close> has a status and the three counters; a row of
  \<^verbatim>\<open>pages\<close> belongs to a run and has a URL, a status, the number of hits, the keyword
  list and the notes; the pair of run and URL is unique among the pages.  Rows are never
  deleted, so the identifier of a page is its index in the table.  Timestamps are left
  out.
\<close>

type_synonym UUID = nat

record run_row =
  run_status :: pystr
  pages_found :: int
  pages_scanned :: int
  error_count :: int

record page_row =
  page_run_id :: UUID
  page_url :: pystr
  page_status :: pystr
  total_hits :: int
  keywords_csv :: "pystr option"
  page_notes :: "pystr option"

record match_row =
  m_page_id :: UUID
  m_keyword :: pystr
  m_matched_text :: pystr
  m_tag :: pystr
  m_position :: int
  m_snippet :: pystr

record db =
  crawl_runs :: "UUID \<rightharpoonup> run_row"
  pages :: "page_row list"
  page_matches :: "match_row list"

text \<open>\<^verbatim>\<open>UPDATE crawl_runs SET ... WHERE id = $1\<close> and \<^verbatim>\<open>UPDATE pages SET ... WHERE id = $1\<close>
  change the row with that identifier, if there is one.\<close>

definition update_run :: "UUID \<Rightarrow> (run_row \<Rightarrow> run_row) \<Rightarrow> db \<Rightarrow> db" where
  "update_run run_id f d =
     (case crawl_runs d run_id of
        None \<Rightarrow> d
      | Some r \<Rightarrow> d\<lparr>crawl_runs := (crawl_runs d)(run_id \<mapsto> f r)\<rparr>)"

definition update_page :: "UUID \<Rightarrow> (page_row \<Rightarrow> page_row) \<Rightarrow> db \<Rightarrow> db" where
  "update_page page_id f d =
     (if page_id < length (pages d)
      then d\<lparr>pages := (pages d)[page_id := f (pages d ! page_id)]\<rparr>
      else d)"

text \<open>\<^verbatim>\<open>insert_page\<close>: \<^verbatim>\<open>INSERT ... ON CONFLICT ON CONSTRAINT idx_pages_run_id_url DO NOTHING
  RETURNING id\<close> returns the new identifier, or nothing when the pair exists.\<close>

definition insert_page :: "UUID \<Rightarrow> pystr \<Rightarrow> db \<Rightarrow> db \<times> UUID option" where
  "insert_page run_id url d =
     (if \<exists>p \<in> set (pages d). page_run_id p = run_id \<and> page_url p = url then (d, None)
      else (d\<lparr>pages := pages d @
                 [\<lparr>page_run_id = run_id, page_url = url, page_status = U ''pending'',
                   total_hits = 0, keywords_csv = None, page_notes = None\<rparr>]\<rparr>,
            Some (length (pages d))))"

text \<open>The other calls of the crud module that the crawler makes; each is one statement,
  and \<open>exec\<close> is its effect on the store.\<close>

datatype call =
    start_run UUID
  | finish_run UUID bool
  | increment_pages_found UUID int
  | increment_pages_scanned UUID
  | increment_error_count UUID
  | update_page_scanning UUID
  | update_page_completed UUID int "pystr option"
  | update_page_skipped UUID pystr
  | update_page_failed UUID pystr
  | insert_matches "match_row list"

fun exec :: "call \<Rightarrow> db \<Rightarrow> db" where
  "exec (start_run run_id) d = update_run run_id (\<lambda>r. r\<lparr>run_status := U ''running''\<rparr>) d"
| "exec (finish_run run_id success) d =
     update_run run_id
       (\<lambda>r. r\<lparr>run_status := (if success then U ''completed'' else U ''failed'')\<rparr>) d"
| "exec (increment_pages_found run_id count) d =
     update_run run_id (\<lambda>r. r\<lparr>pages_found := pages_found r + count\<rparr>) d"
| "exec (increment_pages_scanned run_id) d =
     update_run run_id (\<lambda>r. r\<lparr>pages_scanned := pages_scanned r + 1\<rparr>) d"
| "exec (increment_error_count run_id) d =
     update_run run_id (\<lambda>r. r\<lparr>error_count := error_count r + 1\<rparr>) d"
| "exec (update_page_scanning page_id) d =
     update_page page_id (\<lambda>p. p\<lparr>page_status := U ''scanning''\<rparr>) d"
| "exec (update_page_completed page_id hits csv) d =
     update_page page_id
       (\<lambda>p. p\<lparr>page_status := U ''completed'', total_hits := hits, keywords_csv := csv\<rparr>) d"
| "exec (update_page_skipped page_id note) d =
     update_page page_id (\<lambda>p. p\<lparr>page_status := U ''skipped'', page_notes := Some note\<rparr>) d"
| "exec (update_page_failed page_id note) d =
     update_page page_id (\<lambda>p. p\<lparr>page_status := U ''failed'', page_notes := Some note\<rparr>) d"
| "exec (insert_matches matches) d =
     (if matches = [] then d else d\<lparr>page_matches := page_matches d @ matches\<rparr>)"

section \<open>The page worker (crawler.py)\<close>

text \<open>The two nested loops of \<^verbatim>\<open>_scan_page\<close> that build \<open>all_matches\<close>.\<close>

definition all_matches_of :: "env \<Rightarrow> UUID \<Rightarrow> Rule list \<Rightarrow> TextSegment list \<Rightarrow> match_row list" where
  "all_matches_of E page_id keyword_rules segments =
     concat (map (\<lambda>seg.
       map (\<lambda>mr. \<lparr>m_page_id = page_id, m_keyword = mr_keyword mr,
                   m_matched_text = mr_matched_text mr, m_tag = seg_tag seg,
                   m_position = char_offset seg + mr_position mr,
                   m_snippet = make_snippet E (seg_text seg) (mr_position mr) None\<rparr>)
           (find_matches E (seg_text seg) keyword_rules)) segments)"

text \<open>
  The body of the \<^verbatim>\<open>try\<close> block.  It either raises, and then the result is the exception
  with the value \<open>discovered_links\<close> has at that point, or it returns; the calls to the
  store are all made after the last point that can raise, so the result is the list of
  those calls, in order, with the returned links.
\<close>

definition scan_try ::
  "env \<Rightarrow> pystr \<Rightarrow> UUID \<Rightarrow> Rule list \<Rightarrow> Rule list \<Rightarrow> UUID \<Rightarrow>
   (exn \<times> pystr list) + (call list \<times> pystr list)" where
  "scan_try E url run_id keyword_rules exclude_rules page_id =
     (let discovered_links = [] in
      case fetch E url of
        Inl e \<Rightarrow> Inl (e, discovered_links)
      | Inr response \<Rightarrow>
        let content_type = (case content_type_header response of None \<Rightarrow> [] | Some v \<Rightarrow> v) in
        if \<not> contains (U ''html'') content_type then
          Inr ([update_page_failed page_id (U ''Non-HTML content-type''),
                increment_pages_scanned run_id], [])
        else
          let html = response_text response in
          case extract_links E html url of
            Inl e \<Rightarrow> Inl (e, discovered_links)
          | Inr discovered_links \<Rightarrow>
            (case (if exclude_rules \<noteq> [] then
                     (case urlparse E url [] of
                        Inl e \<Rightarrow> Inl e
                      | Inr p \<Rightarrow> Inr (any_match E (path p) exclude_rules))
                   else Inr False) of
               Inl e \<Rightarrow> Inl (e, discovered_links)
             | Inr True \<Rightarrow>
                 Inr ([update_page_skipped page_id (U ''URL matched an exclude pattern''),
                       increment_pages_scanned run_id], discovered_links)
             | Inr False \<Rightarrow>
                 (case extract_segments E html of
                    Inl e \<Rightarrow> Inl (e, discovered_links)
                  | Inr segments \<Rightarrow>
                      let all_matches = all_matches_of E page_id keyword_rules segments;
                          hit_keywords = remdups (map m_keyword all_matches);
                          csv = str_join (U '','') (sort hit_keywords);
                          keywords_csv = (if csv = [] then None else Some csv)
                      in Inr ([insert_matches all_matches,
                               update_page_completed page_id (int (length all_matches))
                                 keywords_csv,
                               increment_pages_scanned run_id], discovered_links))))"

text \<open>The \<^verbatim>\<open>try\<close> block with its three handlers: what the worker does once the page is
  registered and marked.\<close>

definition scan_calls ::
  "env \<Rightarrow> pystr \<Rightarrow> UUID \<Rightarrow> Rule list \<Rightarrow> Rule list \<Rightarrow> UUID \<Rightarrow> call list \<times> pystr list" where
  "scan_calls E url run_id keyword_rules exclude_rules page_id =
     (case scan_try E url run_id keyword_rules exclude_rules page_id of
        Inr (calls, links) \<Rightarrow> (calls, links)
      | Inl (HTTPStatusError code, discovered_links) \<Rightarrow>
          ([update_page_failed page_id (U ''HTTP '' @ str_int code),
            increment_error_count run_id, increment_pages_scanned run_id], discovered_links)
      | Inl (RequestError name, discovered_links) \<Rightarrow>
          ([update_page_failed page_id (U ''Request error: '' @ name),
            increment_error_count run_id, increment_pages_scanned run_id], [])
      | Inl (Exception msg, discovered_links) \<Rightarrow>
          ([update_page_failed page_id (take 200 msg),
            increment_error_count run_id, increment_pages_scanned run_id], []))"

text \<open>\<^verbatim>\<open>_scan_page\<close>, run without interruption.\<close>

definition scan_page ::
  "env \<Rightarrow> pystr \<Rightarrow> UUID \<Rightarrow> pystr \<Rightarrow> Rule list \<Rightarrow> Rule list \<Rightarrow> db \<Rightarrow> db \<times> pystr list" where
  "scan_page E url run_id netloc' keyword_rules exclude_rules d =
     (case insert_page run_id url d of
        (d, None) \<Rightarrow> (d, [])
      | (d, Some page_id) \<Rightarrow>
          let d = exec (increment_pages_found run_id 1) d;
              d = exec (update_page_scanning page_id) d;
              (calls, links) = scan_calls E url run_id keyword_rules exclude_rules page_id
          in (fold exec calls d, links))"

section \<open>The orchestrator (crawler.py)\<close>

text \<open>The inner loop that builds the next batch.  \<open>visited\<close> is a set in the code; a URL
  is added only when it is not a member, so a list without duplicates stands for it.\<close>

fun build_batch ::
  "env \<Rightarrow> pystr list \<Rightarrow> pystr list \<Rightarrow> pystr list \<Rightarrow>
   exn + (pystr list \<times> pystr list \<times> pystr list)" where
  "build_batch E [] visited batch = Inr ([], visited, batch)"
| "build_batch E (url # queue) visited batch =
     (if \<not> int (length batch) < crawl_concurrency (settings E)
      then Inr (url # queue, visited, batch)
      else case normalise_url E url of
        Inl e \<Rightarrow> Inl e
      | Inr norm \<Rightarrow>
          if norm \<in> set visited then build_batch E queue visited batch
          else build_batch E queue (visited @ [norm]) (batch @ [url]))"

text \<open>The tasks of a batch, here run one after the other.\<close>

fun run_batch ::
  "env \<Rightarrow> UUID \<Rightarrow> pystr \<Rightarrow> Rule list \<Rightarrow> Rule list \<Rightarrow> pystr list \<Rightarrow> db \<Rightarrow>
   db \<times> pystr list list" where
  "run_batch E run_id netloc' keyword_rules exclude_rules [] d = (d, [])"
| "run_batch E run_id netloc' keyword_rules exclude_rules (url # batch) d =
     (let (d, result) = scan_page E url run_id netloc' keyword_rules exclude_rules d;
          (d, results) = run_batch E run_id netloc' keyword_rules exclude_rules batch d
      in (d, result # results))"

text \<open>The loop over the returned links that appends to the queue.\<close>

fun enqueue_links ::
  "env \<Rightarrow> pystr \<Rightarrow> pystr list \<Rightarrow> pystr list \<Rightarrow> pystr list \<Rightarrow> exn + pystr list" where
  "enqueue_links E netloc' visited [] queue = Inr queue"
| "enqueue_links E netloc' visited (link # rest) queue =
     (case normalise_url E link of
        Inl e \<Rightarrow> Inl e
      | Inr norm \<Rightarrow>
          if norm \<notin> set visited then
            (case same_host E link netloc' of
               Inl e \<Rightarrow> Inl e
             | Inr True \<Rightarrow> enqueue_links E netloc' visited rest (queue @ [link])
             | Inr False \<Rightarrow> enqueue_links E netloc' visited rest queue)
          else enqueue_links E netloc' visited rest queue)"

text \<open>
  The \<^verbatim>\<open>while queue\<close> loop.  The first argument bounds the number of iterations; the
  result is \<open>None\<close> when the bound is reached, and otherwise the store with the exception
  raised inside the loop, if any.
\<close>

fun crawl_loop ::
  "nat \<Rightarrow> env \<Rightarrow> UUID \<Rightarrow> pystr \<Rightarrow> Rule list \<Rightarrow> Rule list \<Rightarrow> pystr list \<Rightarrow> pystr list \<Rightarrow>
   db \<Rightarrow> (exn option \<times> db) option" where
  "crawl_loop 0 E run_id netloc' keyword_rules exclude_rules visited queue d = None"
| "crawl_loop (Suc n) E run_id netloc' keyword_rules exclude_rules visited queue d =
     (if queue = [] then Some (None, d)
      else if int (length visited) \<ge> max_pages_per_run (settings E) then Some (None, d)
      else case build_batch E queue visited [] of
        Inl e \<Rightarrow> Some (Some e, d)
      | Inr (queue, visited, batch) \<Rightarrow>
          if batch = []
          then crawl_loop n E run_id netloc' keyword_rules exclude_rules visited queue d
          else
            (let (d, results) =
                   run_batch E run_id netloc' keyword_rules exclude_rules batch d
             in case enqueue_links E netloc' visited (concat results) queue of
                  Inl e \<Rightarrow> Some (Some e, d)
                | Inr queue \<Rightarrow>
                    crawl_loop n E run_id netloc' keyword_rules exclude_rules visited queue d))"

text \<open>
  \<^verbatim>\<open>crawl_run\<close>.  The result is \<open>None\<close> when the loop bound is reached; otherwise it is
  the final store, with the exception that \<^verbatim>\<open>crawl_run\<close> itself raises, if any.  What
  precedes the \<^verbatim>\<open>try\<close> block raises to the caller; what the \<^verbatim>\<open>try\<close> block raises is
  handled by marking the run failed.
\<close>

definition crawl_run ::
  "nat \<Rightarrow> env \<Rightarrow> UUID \<Rightarrow> pystr \<Rightarrow> pystr list \<Rightarrow> pystr list \<Rightarrow> db \<Rightarrow>
   (exn option \<times> db) option" where
  "crawl_run n E run_id domain keywords excludes d =
     (let d = exec (start_run run_id) d;
          seed = (if startswith domain (U ''http://'') \<or> startswith domain (U ''https://'')
                  then domain else U ''https://'' @ domain)
      in case urlparse E seed [] of
        Inl e \<Rightarrow> Some (Some e, d)
      | Inr seed_parsed \<Rightarrow>
        let netloc' = netloc seed_parsed in
        case compile_rules E keywords of
          Inl e \<Rightarrow> Some (Some e, d)
        | Inr keyword_rules \<Rightarrow>
          (case compile_rules E excludes of
             Inl e \<Rightarrow> Some (Some e, d)
           | Inr exclude_rules \<Rightarrow>
             (case normalise_url E seed of
                Inl e \<Rightarrow> Some (Some e, d)
              | Inr first_url \<Rightarrow>
                if crawl_concurrency (settings E) < 0
                then Some (Some (Exception (U ''Semaphore initial value must be >= 0'')), d)
                else
                  (case (case client_error E of
                           Some e \<Rightarrow> Some (Some e, d)
                         | None \<Rightarrow>
                             crawl_loop n E run_id netloc' keyword_rules exclude_rules
                               [] [first_url] d) of
                     None \<Rightarrow> None
                   | Some (None, d) \<Rightarrow> Some (None, exec (finish_run run_id True) d)
                   | Some (Some e, d) \<Rightarrow> Some (None, exec (finish_run run_id False) d)))))"

section \<open>Concurrent page workers\<close>

text \<open>
  Every call to the store is atomic, and a worker can be suspended between any two of
  them.  A task of \<^verbatim>\<open>_scan_page\<close> is waiting to register its page, or it has registered
  and still has calls to make before it returns its links, or it has returned.  A step of
  the system is one step of one task.  The semaphore only restricts which task may move,
  so every schedule of the program is a sequence of these steps.
\<close>

datatype task = Waiting UUID pystr | Active "call list" "pystr list" | Returned "pystr list"

inductive step ::
  "env \<Rightarrow> Rule list \<Rightarrow> Rule list \<Rightarrow> db \<times> task list \<Rightarrow> db \<times> task list \<Rightarrow> bool"
  for E :: env and keyword_rules :: "Rule list" and exclude_rules :: "Rule list" where
  duplicate:
    "i < length ts \<Longrightarrow> ts ! i = Waiting run_id url \<Longrightarrow> insert_page run_id url d = (d', None) \<Longrightarrow>
     step E keyword_rules exclude_rules (d, ts) (d', ts[i := Returned []])"
| registered:
    "i < length ts \<Longrightarrow> ts ! i = Waiting run_id url \<Longrightarrow>
     insert_page run_id url d = (d', Some page_id) \<Longrightarrow>
     scan_calls E url run_id keyword_rules exclude_rules page_id = (calls, links) \<Longrightarrow>
     step E keyword_rules exclude_rules (d, ts)
       (d', ts[i := Active ([increment_pages_found run_id 1, update_page_scanning page_id]
                            @ calls) links])"
| called:
    "i < length ts \<Longrightarrow> ts ! i = Active (c # calls) links \<Longrightarrow>
     step E keyword_rules exclude_rules (d, ts) (exec c d, ts[i := Active calls links])"
| returned:
    "i < length ts \<Longrightarrow> ts ! i = Active [] links \<Longrightarrow>
     step E keyword_rules exclude_rules (d, ts) (d, ts[i := Returned links])"

section \<open>The three forms of a rule, after the specification\<close>

text \<open>
  The specification's words for the rule compiler: the delimited form \<^verbatim>\<open>/expr/\<close> (length
  greater than 2, starts and ends with \<^verbatim>\<open>/\<close>) gives the enclosed text; the suffix-wildcard
  form \<^verbatim>\<open>word*\<close> gives a word boundary, the escaped literal and a word-character star; the
  plain form gives the escaped literal with a word boundary on both sides.
\<close>

definition spec_delimited :: "pystr \<Rightarrow> bool" where
  "spec_delimited kw \<longleftrightarrow> length kw > 2 \<and> hd kw = 47 \<and> last kw = 47"

definition spec_suffix_wildcard :: "pystr \<Rightarrow> bool" where
  "spec_suffix_wildcard kw \<longleftrightarrow> kw \<noteq> [] \<and> last kw = 42"

definition spec_pattern_source :: "pystr \<Rightarrow> pystr" where
  "spec_pattern_source kw =
     (if spec_delimited kw then butlast (tl kw)
      else if spec_suffix_wildcard kw then [92, 98] @ re_escape (butlast kw) @ [92, 119, 42]
      else [92, 98] @ re_escape kw @ [92, 98])"

section \<open>Registered pages\<close>

text \<open>A page of a run is registered when the \<^verbatim>\<open>pages\<close> table has a row for the pair of run
  and URL; \<open>page_keys\<close> lists the pairs of all rows.\<close>

definition registered :: "UUID \<Rightarrow> pystr \<Rightarrow> db \<Rightarrow> bool" where
  "registered run_id url d \<longleftrightarrow> (\<exists>p \<in> set (pages d). page_run_id p = run_id \<and> page_url p = url)"

definition page_keys :: "db \<Rightarrow> (UUID \<times> pystr) list" where
  "page_keys d = map (\<lambda>p. (page_run_id p, page_url p)) (pages d)"

section \<open>Counters of a run\<close>

text \<open>The values of \<^verbatim>\<open>pages_found\<close>, \<^verbatim>\<open>pages_scanned\<close> and \<^verbatim>\<open>error_count\<close> of a run.\<close>

definition counters :: "db \<Rightarrow> UUID \<Rightarrow> (int \<times> int \<times> int) option" where
  "counters d run_id =
     map_option (\<lambda>r. (pages_found r, pages_scanned r, error_count r)) (crawl_runs d run_id)"

section \<open>Accounting of the counters\<close>

text \<open>
  \<open>credit r c\<close> is what the call \<open>c\<close> adds to \<^verbatim>\<open>pages_found - pages_scanned\<close> of the run
  \<open>r\<close>, and \<open>pending\<close> sums it over the calls a task still has to make.  A list of calls
  is settled when none of its suffixes has a positive sum.  \<open>worker_calls\<close> are the calls
  of a worker after it has registered its page.
\<close>

fun credit :: "UUID \<Rightarrow> call \<Rightarrow> int" where
  "credit r (increment_pages_found run_id count) = (if run_id = r then count else 0)"
| "credit r (increment_pages_scanned run_id) = (if run_id = r then - 1 else 0)"
| "credit r c = 0"

definition pending :: "UUID \<Rightarrow> call list \<Rightarrow> int" where
  "pending r calls = sum_list (map (credit r) calls)"

fun task_calls :: "task \<Rightarrow> call list" where
  "task_calls (Waiting run_id url) = []"
| "task_calls (Active calls links) = calls"
| "task_calls (Returned links) = []"

fun waiting :: "task \<Rightarrow> bool" where
  "waiting (Waiting run_id url) = True"
| "waiting t = False"

definition settled :: "UUID \<Rightarrow> call list \<Rightarrow> bool" where
  "settled r calls \<longleftrightarrow> (\<forall>k. pending r (drop k calls) \<le> 0)"

definition balance :: "UUID \<Rightarrow> int \<Rightarrow> db \<times> task list \<Rightarrow> bool" where
  "balance r m s \<longleftrightarrow>
     (\<exists>row. crawl_runs (fst s) r = Some row \<and>
        pages_found row - pages_scanned row + (\<Sum>t\<leftarrow>snd s. pending r (task_calls t)) = m)
     \<and> (\<forall>t \<in> set (snd s). settled r (task_calls t))"

definition worker_calls ::
  "env \<Rightarrow> pystr \<Rightarrow> UUID \<Rightarrow> Rule list \<Rightarrow> Rule list \<Rightarrow> UUID \<Rightarrow> call list" where
  "worker_calls E url run_id keyword_rules exclude_rules page_id =
     [increment_pages_found run_id 1, update_page_scanning page_id] @
     fst (scan_calls E url run_id keyword_rules exclude_rules page_id)"

section \<open>Link extraction, in the words of the specification\<close>

text \<open>
  Resolve a hyperlink reference against the page's URL, discard the pseudo-links and
  what is not HTTP(S), keep what is on the host of the page's URL, drop the fragment and
  trim the trailing slash; then deduplicate, preserving first-seen order.
\<close>

definition spec_pseudo_link :: "pystr \<Rightarrow> bool" where
  "spec_pseudo_link href \<longleftrightarrow>
     startswith href (U ''#'') \<or> startswith href (U ''javascript:'') \<or>
     startswith href (U ''mailto:'') \<or> startswith href (U ''tel:'')"

definition spec_link :: "env \<Rightarrow> pystr \<Rightarrow> ParseResult \<Rightarrow> pystr \<Rightarrow> exn + pystr option" where
  "spec_link E base_url base_parsed h =
     (let href = str_strip h in
      if href = [] \<or> spec_pseudo_link href then Inr None
      else case urljoin E base_url href of
        Inl e \<Rightarrow> Inl e
      | Inr full \<Rightarrow>
        (case urlparse E full [] of
           Inl e \<Rightarrow> Inl e
         | Inr parsed \<Rightarrow>
           if scheme parsed \<in> {U ''http'', U ''https''} \<and> netloc parsed = netloc base_parsed
           then Inr (Some (rstrip (U ''/'') (geturl (parsed\<lparr>fragment := []\<rparr>))))
           else Inr None))"

fun spec_first_seen :: "pystr list \<Rightarrow> pystr list" where
  "spec_first_seen [] = []"
| "spec_first_seen (x # xs) = x # spec_first_seen (filter (\<lambda>y. y \<noteq> x) xs)"

section \<open>Status of a run\<close>

text \<open>The status of a run, if the run exists.\<close>

definition status_of :: "db \<Rightarrow> UUID \<Rightarrow> pystr option" where
  "status_of d run_id = map_option run_status (crawl_runs d run_id)"

section \<open>Offsets of the segments\<close>

text \<open>The elements that emit a segment, in document order, with their text.\<close>

definition surviving :: "(pystr list \<times> node) list \<Rightarrow> (pystr \<times> pystr) list" where
  "surviving els =
     map (\<lambda>(parents, el). (segment_text el, node_name el))
       (filter (\<lambda>(parents, el). \<not> has_allowed_ancestor parents \<and> segment_text el \<noteq> []) els)"

fun layout :: "int \<Rightarrow> (pystr \<times> pystr) list \<Rightarrow> TextSegment list" where
  "layout off [] = []"
| "layout off ((t, g) # rest) =
     \<lparr>seg_text = t, seg_tag = g, char_offset = off\<rparr> # layout (off + int (length t) + 1) rest"

section \<open>Example inputs\<close>

text \<open>
  Libraries that accept every pattern and every host, a parser that returns the empty
  document, a network on which every request fails, and the default settings.
\<close>

definition env0 :: env where
  "env0 = \<lparr>settings = \<lparr>crawl_concurrency = 8, max_pages_per_run = 500, snippet_context = 120\<rparr>,
           BeautifulSoup = (\<lambda>html. Inr (Tag (U ''[document]'') [] [])),
           re_error = (\<lambda>source. None),
           finditer = (\<lambda>pattern text. []),
           host_error = (\<lambda>loc. None),
           client_error = None,
           fetch = (\<lambda>url. Inl (RequestError (U ''ConnectError'')))\<rparr>"

text \<open>
  The tree of \<^verbatim>\<open><p>ab</p><nav><p>zz</p></nav><div> <!--x y--><p>c  d</p></div>\<close>, and
  the segments the extractor returns for it.
\<close>

definition doc1 :: node where
  "doc1 = Tag (U ''[document]'') []
     [Tag (U ''p'') [] [NavigableString (U ''ab'')],
      Tag (U ''nav'') [] [Tag (U ''p'') [] [NavigableString (U ''zz'')]],
      Tag (U ''div'') []
        [NavigableString (U '' ''), Comment (U ''x y''),
         Tag (U ''p'') [] [NavigableString (U ''c  d'')]]]"

definition env1 :: env where
  "env1 = env0\<lparr>BeautifulSoup := (\<lambda>html. Inr doc1)\<rparr>"

definition doc1_segments :: "TextSegment list" where
  "doc1_segments =
     [\<lparr>seg_text = U ''ab'', seg_tag = U ''p'', char_offset = 0\<rparr>,
      \<lparr>seg_text = U ''c d'', seg_tag = U ''div'', char_offset = 3\<rparr>]"

text \<open>The same with one character of context on each side of a match.\<close>

definition env2 :: env where
  "env2 = env1\<lparr>settings := (settings env1)\<lparr>snippet_context := 1\<rparr>\<rparr>"

text \<open>A store with one run and no page, and the store after the worker has scanned the
  page \<^verbatim>\<open>https://example.com\<close> of that run.\<close>

definition db0 :: db where
  "db0 = \<lparr>crawl_runs = [0 \<mapsto> \<lparr>run_status = U ''running'', pages_found = 0,
                                 pages_scanned = 0, error_count = 0\<rparr>],
          pages = [], page_matches = []\<rparr>"

definition db1 :: db where
  "db1 = \<lparr>crawl_runs = [0 \<mapsto> \<lparr>run_status = U ''running'', pages_found = 1,
                                 pages_scanned = 1, error_count = 0\<rparr>],
          pages = [\<lparr>page_run_id = 0, page_url = U ''https://example.com'',
                    page_status = U ''completed'', total_hits = 0, keywords_csv = None,
                    page_notes = None\<rparr>],
          page_matches = []\<rparr>"

text \<open>
  A page with a link to its own host and a link to another host, served as HTML; a
  regular expression engine that finds \<^verbatim>\<open>blog\<close> in the path \<^verbatim>\<open>/blog\<close>; a response that
  is a PDF document; and the exclude rule compiled from \<^verbatim>\<open>blog\<close>.
\<close>

definition doc2 :: node where
  "doc2 = Tag (U ''[document]'') []
     [Tag (U ''a'') [(U ''href'', U ''/x'')] [NavigableString (U ''x'')],
      Tag (U ''a'') [(U ''href'', U ''https://other.example/y'')] [NavigableString (U ''y'')]]"

definition html_response :: response where
  "html_response = \<lparr>content_type_header = Some (U ''text/html; charset=utf-8''),
                     response_text = U ''<a href=/x>x</a><a href=https://other.example/y>y</a>''\<rparr>"

definition env4 :: env where
  "env4 = env0\<lparr>BeautifulSoup := (\<lambda>html. Inr doc2),
               finditer := (\<lambda>pattern text. if text = U ''/blog'' then [(1, U ''blog'')] else []),
               fetch := (\<lambda>url. Inr html_response)\<rparr>"

definition pdf_response :: response where
  "pdf_response = \<lparr>content_type_header = Some (U ''application/pdf''), response_text = []\<rparr>"

definition env3 :: env where
  "env3 = env0\<lparr>fetch := (\<lambda>url. Inr pdf_response)\<rparr>"

definition exclude_blog :: "Rule list" where
  "exclude_blog = [(U ''blog'', Pattern ([92] @ U ''bblog'' @ [92] @ U ''b'') True)]"

text \<open>The parsed URL of the page above.\<close>

definition base_blog :: ParseResult where
  "base_blog = \<lparr>scheme = U ''https'', netloc = U ''example.com'', path = U ''/blog'',
                 params = [], query = [], fragment = []\<rparr>"

text \<open>A page whose only link has the query \<^verbatim>\<open>/\<close>.\<close>

definition doc3 :: node where
  "doc3 = Tag (U ''[document]'') []
     [Tag (U ''a'') [(U ''href'', U ''https://example.com/b?/'')] [NavigableString (U ''b'')]]"

definition env5 :: env where
  "env5 = env0\<lparr>BeautifulSoup := (\<lambda>html. Inr doc3)\<rparr>"

text \<open>
  A store whose run is still pending; a regular expression library that rejects the
  pattern \<^verbatim>\<open>(\<close>, as \<^verbatim>\<open>re.compile\<close> does; and an HTTP client that cannot be constructed.
\<close>

definition db_pending :: db where
  "db_pending = \<lparr>crawl_runs = [0 \<mapsto> \<lparr>run_status = U ''pending'', pages_found = 0,
                                        pages_scanned = 0, error_count = 0\<rparr>],
                 pages = [], page_matches = []\<rparr>"

definition env6 :: env where
  "env6 = env0\<lparr>re_error := (\<lambda>source. if source = U ''(''
             then Some (U ''missing ), unterminated subpattern at position 0'') else None)\<rparr>"

definition env7 :: env where
  "env7 = env0\<lparr>client_error := Some (Exception (U ''client construction failed''))\<rparr>"

text \<open>
  Regular expression engines for the document above: one finds the keyword \<^verbatim>\<open>c\<close> at
  position 0 of the text \<^verbatim>\<open>c d\<close>, the other, with one character of context, finds the
  keyword \<^verbatim>\<open>d\<close> at position 2; neither finds anything in \<^verbatim>\<open>ab\<close>.
\<close>

definition rule_c :: "Rule list" where
  "rule_c = [(U ''c'', Pattern ([92] @ U ''bc'' @ [92] @ U ''b'') True)]"

definition env_c :: env where
  "env_c = env1\<lparr>finditer := (\<lambda>pattern text. if text = U ''c d'' then [(0, U ''c'')] else [])\<rparr>"

definition rule_d :: "Rule list" where
  "rule_d = [(U ''d'', Pattern ([92] @ U ''bd'' @ [92] @ U ''b'') True)]"

definition env_d :: env where
  "env_d = env2\<lparr>finditer := (\<lambda>pattern text. if text = U ''c d'' then [(2, U ''d'')] else [])\<rparr>"

text \<open>
  A network on which every URL serves that page, and the stores of a crawl of it: one run
  with \<open>n\<close> pages found and scanned, and completed pages without hits.
\<close>

definition env_web :: env where
  "env_web = env5\<lparr>fetch := (\<lambda>url. Inr html_response)\<rparr>"

definition web_db :: "pystr \<Rightarrow> int \<Rightarrow> page_row list \<Rightarrow> db" where
  "web_db st n rows = \<lparr>crawl_runs = [0 \<mapsto> \<lparr>run_status = st, pages_found = n,
                                   pages_scanned = n, error_count = 0\<rparr>],
                       pages = rows, page_matches = []\<rparr>"

definition web_page :: "pystr \<Rightarrow> page_row" where
  "web_page url = \<lparr>page_run_id = 0, page_url = url, page_status = U ''completed'',
                    total_hits = 0, keywords_csv = None, page_notes = None\<rparr>"

lemma segments_loop_layout:
  "segments_loop els segments off = segments @ layout off (surviving els)"
proof (induction els arbitrary: segments off)
  case Nil
  show ?case by (simp add: surviving_def)
next
  case (Cons pe els)
  obtain parents el where pe: "pe = (parents, el)" by (cases pe)
  show ?case
    unfolding pe using Cons.IH by (simp add: surviving_def Let_def)
qed

lemma layout_length: "length (layout off items) = length items"
  by (induction items arbitrary: off) auto

lemma layout_texts: "map (\<lambda>s. (seg_text s, seg_tag s)) (layout off items) = items"
  by (induction items arbitrary: off) auto

lemma layout_offset:
  "i < length items \<Longrightarrow>
   char_offset (layout off items ! i) = off + (\<Sum>s\<leftarrow>take i (layout off items). int (length (seg_text s)) + 1)"
proof (induction items arbitrary: off i)
  case Nil
  then show ?case by simp
next
  case (Cons item items)
  obtain t g where item: "item = (t, g)" by (cases item)
  show ?case
  proof (cases i)
    case 0
    then show ?thesis by (simp add: item)
  next
    case (Suc j)
    with Cons.prems have "j < length items" by simp
    from Cons.IH [OF this, of "off + int (length t) + 1"] show ?thesis
      by (simp add: item Suc)
  qed
qed

lemma sum_list_length_concat:
  "(\<Sum>s\<leftarrow>segs. int (length (seg_text s)) + 1) =
   int (length (concat (map (\<lambda>s. seg_text s @ sep1) segs))) - int (length segs) * (int (length sep1) - 1)"
  by (induction segs) (auto simp: algebra_simps)

lemma surviving_nonempty: "(t, g) \<in> set (surviving els) \<Longrightarrow> t \<noteq> []"
  by (auto simp: surviving_def)

lemma layout_nonempty:
  "\<forall>(t, g) \<in> set items. t \<noteq> [] \<Longrightarrow> s \<in> set (layout off items) \<Longrightarrow> seg_text s \<noteq> []"
  by (induction items arbitrary: off) auto

lemma doc1_extract: "extract_segments env1 [] = Inr doc1_segments"
  by (simp add: extract_segments_def env1_def doc1_def doc1_segments_def find_all_def
      EXCLUDED_CONTAINERS_def ALLOWED_TAGS_def U_def has_allowed_ancestor_def segment_text_def
      get_text_def str_split_def str_strip_def isspace_def)

lemma str_join_Cons:
  "str_join sep (x # xs) = x @ (if xs = [] then [] else sep @ str_join sep xs)"
  by (cases xs) auto

lemma layout_eq_Nil: "layout off items = [] \<longleftrightarrow> items = []"
  by (cases items) auto

lemma page_text_layout:
  "i < length items \<Longrightarrow>
   \<exists>pre post. page_text (layout off items) = pre @ seg_text (layout off items ! i) @ post
     \<and> int (length pre) = char_offset (layout off items ! i) - off
     \<and> (i = 0 \<longrightarrow> pre = []) \<and> (Suc i = length items \<longrightarrow> post = [])"
proof (induction items arbitrary: off i)
  case Nil
  then show ?case by simp
next
  case (Cons item items)
  obtain t g where item: "item = (t, g)" by (cases item)
  show ?case
  proof (cases i)
    case 0
    show ?thesis
      by (rule exI [of _ "[]"], rule exI [of _ "if items = [] then [] else U '' '' @ page_text (layout (off + int (length t) + 1) items)"])
         (simp add: 0 item page_text_def str_join_Cons layout_eq_Nil)
  next
    case (Suc j)
    with Cons.prems have j: "j < length items" by simp
    from Cons.IH [OF j, of "off + int (length t) + 1"] obtain pre post where
      p: "page_text (layout (off + int (length t) + 1) items) = pre @ seg_text (layout (off + int (length t) + 1) items ! j) @ post"
      and l: "int (length pre) = char_offset (layout (off + int (length t) + 1) items ! j) - (off + int (length t) + 1)"
      and e: "Suc j = length items \<longrightarrow> post = []"
      by blast
    from j have ne: "items \<noteq> []" by auto
    then have ne': "layout (off + int (length t) + 1) items \<noteq> []" by (cases items) auto
    show ?thesis
      apply (rule exI [of _ "t @ U '' '' @ pre"], rule exI [of _ post])
      using p l e ne' by (simp add: Suc item page_text_def str_join_Cons U_def layout_eq_Nil)
  qed
qed

lemma make_snippet_embedded:
  assumes "0 \<le> pos" "pos \<le> int (length t)" "0 \<le> snippet_context (settings E)"
    and "pre = [] \<or> snippet_context (settings E) < pos"
    and "post = [] \<or> pos + snippet_context (settings E) < int (length t)"
  shows "make_snippet E (pre @ t @ post) (int (length pre) + pos) None = make_snippet E t pos None"
proof -
  define w where "w = snippet_context (settings E)"
  note assms = assms [folded w_def]
  define start where "start = max 0 (pos - w)"
  define stop where "stop = min (int (length t)) (pos + w)"
  define o' where "o' = int (length pre)"
  have s0: "0 \<le> start" "start \<le> pos" "start \<le> stop" "stop \<le> int (length t)" "0 \<le> stop"
    using assms by (auto simp: start_def stop_def)
  have start': "max 0 (o' + pos - w) = o' + start"
    using assms(4) by (auto simp: start_def o'_def)
  have stop': "min (int (length (pre @ t @ post))) (o' + pos + w) = o' + stop"
    using assms(5) by (auto simp: stop_def o'_def)
  have sl: "py_slice (pre @ t @ post) (o' + start) (o' + stop) = py_slice t start stop"
  proof -
    have a: "nat (o' + start) = length pre + nat start" using s0 by (simp add: o'_def nat_add_distrib)
    have b: "nat (o' + stop - (o' + start)) = nat (stop - start)" by simp
    have c: "nat (stop - start) \<le> length (drop (nat start) t)" using s0 by simp
    have "py_slice (pre @ t @ post) (o' + start) (o' + stop) = take (nat (stop - start)) (drop (length pre + nat start) (pre @ t @ post))"
      using s0 a by (simp add: py_slice_def slice_index_def Let_def o'_def min_def)
    also have "\<dots> = take (nat (stop - start)) (drop (nat start) t @ post)"
      using s0 by (simp add: drop_append)
    also have "\<dots> = take (nat (stop - start)) (drop (nat start) t)"
      using c by simp
    also have "\<dots> = py_slice t start stop"
      using s0 by (simp add: py_slice_def slice_index_def Let_def min_def)
    finally show ?thesis .
  qed
  have e1: "(0 < o' + start) = (0 < start)"
    using assms(4) s0 by (auto simp: start_def o'_def)
  have e2: "(o' + stop < int (length (pre @ t @ post))) = (stop < int (length t))"
    using assms(5) s0 by (auto simp: stop_def o'_def)
  have L: "make_snippet E (pre @ t @ post) (o' + pos) None =
      (let snippet = py_slice (pre @ t @ post) (o' + start) (o' + stop);
           snippet = (if 0 < o' + start then ellipsis @ snippet else snippet);
           snippet = (if o' + stop < int (length (pre @ t @ post)) then snippet @ ellipsis else snippet)
       in snippet)"
    unfolding make_snippet_def Let_def using start' stop'
    by (simp add: add.assoc add_diff_eq w_def)
  have R: "make_snippet E t pos None =
      (let snippet = py_slice t start stop;
           snippet = (if 0 < start then ellipsis @ snippet else snippet);
           snippet = (if stop < int (length t) then snippet @ ellipsis else snippet)
       in snippet)"
    unfolding make_snippet_def Let_def start_def stop_def by (simp add: w_def)
  show ?thesis unfolding o'_def [symmetric] L R using sl e1 e2 by (simp add: Let_def)
qed

section \<open>C1: offsets of the text segments\<close>

lemma segments_offsets:
  assumes "extract_segments E html = Inr segs" and "i < length segs"
  shows "char_offset (segs ! i) = (\<Sum>s\<leftarrow>take i segs. int (length (seg_text s)) + 1)
       \<and> char_offset (segs ! i) = int (length (concat (map (\<lambda>s. seg_text s @ U '' '') (take i segs))))
       \<and> seg_text (segs ! i) \<noteq> []
       \<and> (\<exists>soup. BeautifulSoup E html = Inr soup \<and>
            map (\<lambda>s. (seg_text s, seg_tag s)) segs =
            surviving (find_all ALLOWED_TAGS (fold decompose_all EXCLUDED_CONTAINERS soup)))"
proof -
  from assms(1) obtain soup where soup: "BeautifulSoup E html = Inr soup"
    by (auto simp: extract_segments_def split: sum.splits)
  define items where "items = surviving (find_all ALLOWED_TAGS (fold decompose_all EXCLUDED_CONTAINERS soup))"
  from assms(1) soup have segs: "segs = layout 0 items"
    by (simp add: extract_segments_def segments_loop_layout items_def)
  from assms(2) have i: "i < length items" by (simp add: segs layout_length)
  have a: "char_offset (segs ! i) = (\<Sum>s\<leftarrow>take i segs. int (length (seg_text s)) + 1)"
    using layout_offset [OF i, of 0] by (simp add: segs)
  have b: "(\<Sum>s\<leftarrow>take i segs. int (length (seg_text s)) + 1) =
           int (length (concat (map (\<lambda>s. seg_text s @ U '' '') (take i segs))))"
    using sum_list_length_concat [of "take i segs" "U '' ''"] by (simp add: U_def)
  have "\<forall>(t, g) \<in> set items. t \<noteq> []"
    using surviving_nonempty by (auto simp: items_def)
  then have c: "seg_text (segs ! i) \<noteq> []"
    using layout_nonempty [of items "segs ! i" 0] assms(2) by (simp add: segs)
  have d: "map (\<lambda>s. (seg_text s, seg_tag s)) segs = items"
    by (simp add: segs layout_texts)
  show ?thesis using a b c d soup by (simp add: items_def)
qed

text \<open>
  C1.  For every document that the parser returns, \<open>extract_segments\<close> returns the
  segments of the surviving elements of \<open>find_all\<close>, in document order; the offset of its
  \<open>i\<close>-th segment is the sum, over the segments before it, of the length of the text plus
  one, which is the length of the earlier texts, each followed by one space.  No emitted
  segment has an empty text, so a dropped element uses no offset space.
\<close>

theorem extract_segments_offsets:
  assumes "BeautifulSoup E html = Inr soup"
  shows "\<exists>segs. extract_segments E html = Inr segs
         \<and> map (\<lambda>s. (seg_text s, seg_tag s)) segs =
           surviving (find_all ALLOWED_TAGS (fold decompose_all EXCLUDED_CONTAINERS soup))
         \<and> (\<forall>i < length segs.
              char_offset (segs ! i) = (\<Sum>s\<leftarrow>take i segs. int (length (seg_text s)) + 1)
              \<and> char_offset (segs ! i) =
                int (length (concat (map (\<lambda>s. seg_text s @ U '' '') (take i segs))))
              \<and> seg_text (segs ! i) \<noteq> [])"
proof -
  obtain segs where segs: "extract_segments E html = Inr segs"
    using assms by (simp add: extract_segments_def)
  have "map (\<lambda>s. (seg_text s, seg_tag s)) segs =
           surviving (find_all ALLOWED_TAGS (fold decompose_all EXCLUDED_CONTAINERS soup))"
    using segs assms by (auto simp: extract_segments_def segments_loop_layout layout_texts)
  with segs segments_offsets [OF segs] show ?thesis by blast
qed

theorem extract_segments_offsets_witness:
  "BeautifulSoup env1 [] = Inr doc1 \<and> extract_segments env1 [] = Inr doc1_segments
   \<and> char_offset (doc1_segments ! 1) = 3
   \<and> char_offset (doc1_segments ! 1)
       = (\<Sum>s\<leftarrow>take 1 doc1_segments. int (length (seg_text s)) + 1)
   \<and> seg_text (doc1_segments ! 1) = U ''c d''"
proof -
  have b: "BeautifulSoup env1 [] = Inr doc1" by (simp add: env1_def)
  have l: "1 < length doc1_segments" by (simp add: doc1_segments_def)
  from extract_segments_offsets [OF b] doc1_extract
  have "\<forall>i < length doc1_segments.
          char_offset (doc1_segments ! i)
            = (\<Sum>s\<leftarrow>take i doc1_segments. int (length (seg_text s)) + 1)"
    by auto
  with l have "char_offset (doc1_segments ! 1)
       = (\<Sum>s\<leftarrow>take 1 doc1_segments. int (length (seg_text s)) + 1)" by blast
  moreover have "char_offset (doc1_segments ! 1) = 3" "seg_text (doc1_segments ! 1) = U ''c d''"
    by (simp_all add: doc1_segments_def)
  ultimately show ?thesis using b doc1_extract by blast
qed

lemma snippet_window:
  assumes "extract_segments E html = Inr segs" and "i < length segs"
    and "0 \<le> pos" and "pos \<le> int (length (seg_text (segs ! i)))"
    and "0 \<le> snippet_context (settings E)"
    and "i = 0 \<or> snippet_context (settings E) < pos"
    and "Suc i = length segs \<or>
         pos + snippet_context (settings E) < int (length (seg_text (segs ! i)))"
  shows "make_snippet E (seg_text (segs ! i)) pos None =
         make_snippet E (page_text segs) (char_offset (segs ! i) + pos) None"
proof -
  from assms(1) obtain items where segs: "segs = layout 0 items"
    by (auto simp: extract_segments_def segments_loop_layout split: sum.splits)
  from assms(2) have i: "i < length items" by (simp add: segs layout_length)
  from page_text_layout [OF i, of 0] obtain pre post where
    p: "page_text segs = pre @ seg_text (segs ! i) @ post"
    and l: "int (length pre) = char_offset (segs ! i)"
    and e: "i = 0 \<longrightarrow> pre = []" "Suc i = length items \<longrightarrow> post = []"
    by (auto simp: segs)
  have "make_snippet E (pre @ seg_text (segs ! i) @ post) (int (length pre) + pos) None =
        make_snippet E (seg_text (segs ! i)) pos None"
    using assms(3-7) e by (intro make_snippet_embedded) (auto simp: segs layout_length)
  then show ?thesis by (simp add: p l)
qed

section \<open>C9: the rule compiler\<close>

lemma startswith_char: "startswith s [c] \<longleftrightarrow> s \<noteq> [] \<and> hd s = c"
  by (cases s) (auto simp: startswith_def)

lemma endswith_char: "endswith s [c] \<longleftrightarrow> s \<noteq> [] \<and> last s = c"
proof (cases s rule: rev_cases)
  case Nil
  then show ?thesis by (simp add: endswith_def)
next
  case (snoc ys y)
  then show ?thesis by (auto simp: endswith_def)
qed

lemma nat_int_pred: "nat (int n - 1) = n - 1"
  by simp

lemma slice_inner: "py_slice kw 1 (- 1) = butlast (tl kw)"
  by (cases kw)
     (auto simp: py_slice_def slice_index_def Let_def butlast_conv_take drop_Suc nat_int_pred
           simp del: of_nat_diff)

lemma slice_butlast: "py_slice kw 0 (- 1) = butlast kw"
  by (auto simp: py_slice_def slice_index_def Let_def butlast_conv_take nat_int_pred max_def)

lemma compile_rule_source:
  "compile_rule E keyword =
     (case re_error E (spec_pattern_source (str_strip keyword)) of
        Some msg \<Rightarrow> Inl (Exception msg)
      | None \<Rightarrow> Inr (str_strip keyword, Pattern (spec_pattern_source (str_strip keyword)) True))"
  by (auto simp: compile_rule_def spec_pattern_source_def spec_delimited_def spec_suffix_wildcard_def Let_def U_def
      startswith_char endswith_char slice_inner slice_butlast re_compile_def
      split: option.splits)

text \<open>
  C9 as stated fails: the first component of a pair is the keyword stripped of its
  surrounding whitespace, not the string as given.
\<close>

theorem compile_rules_original_counterexample:
  "compile_rules env0 [U '' a ''] = Inr [(U ''a'', Pattern ([92] @ U ''ba'' @ [92] @ U ''b'') True)]
   \<and> U ''a'' \<noteq> U '' a ''"
  by (simp add: compile_rule_def re_compile_def env0_def U_def str_strip_def isspace_def
      startswith_def endswith_def re_escape_def special_chars_def Let_def)

text \<open>
  C9, amended.  Provided \<^verbatim>\<open>re.compile\<close> accepts the pattern of every entry that is not
  blank, \<open>compile_rules\<close> returns exactly one pair per such entry, in input order; the
  first component is the stripped keyword, and the pattern is case-insensitive with the
  source of the delimited form, else of the suffix-wildcard form, else of the plain form.
\<close>

theorem compile_rules_pairs:
  assumes "\<forall>k \<in> set keywords. str_strip k \<noteq> [] \<longrightarrow> re_error E (spec_pattern_source (str_strip k)) = None"
  shows "compile_rules E keywords =
         Inr (map (\<lambda>k. (str_strip k, Pattern (spec_pattern_source (str_strip k)) True))
               (filter (\<lambda>k. str_strip k \<noteq> []) keywords))"
  using assms by (induction "keywords") (auto simp: compile_rule_source)

theorem compile_rules_pairs_witness:
  "compile_rules env0 [U '' a '', U ''  '', U ''green*'', U ''/gr(e+)n/''] =
     Inr [(U ''a'', Pattern ([92] @ U ''ba'' @ [92] @ U ''b'') True),
          (U ''green*'', Pattern ([92] @ U ''bgreen'' @ [92] @ U ''w*'') True),
          (U ''/gr(e+)n/'', Pattern (U ''gr(e+)n'') True)]"
proof -
  have "\<forall>k \<in> set [U '' a '', U ''  '', U ''green*'', U ''/gr(e+)n/''].
          str_strip k \<noteq> [] \<longrightarrow> re_error env0 (spec_pattern_source (str_strip k)) = None"
    by (simp add: env0_def)
  from compile_rules_pairs [OF this] show ?thesis
    by (simp add: spec_pattern_source_def spec_delimited_def spec_suffix_wildcard_def re_escape_def special_chars_def
        U_def str_strip_def isspace_def)
qed

section \<open>C6: duplicate registration\<close>

lemma registered_keys: "registered run_id url d \<longleftrightarrow> (run_id, url) \<in> set (page_keys d)"
  by (auto simp: registered_def page_keys_def)

lemma insert_page_registered:
  "registered run_id url d \<Longrightarrow> insert_page run_id url d = (d, None)"
  by (simp add: insert_page_def registered_def)

lemma insert_page_new:
  "\<not> registered run_id url d \<Longrightarrow>
   insert_page run_id url d =
     (d\<lparr>pages := pages d @
          [\<lparr>page_run_id = run_id, page_url = url, page_status = U ''pending'',
            total_hits = 0, keywords_csv = None, page_notes = None\<rparr>]\<rparr>,
      Some (length (pages d)))"
  by (simp add: insert_page_def registered_def)

lemma page_keys_update_page: "page_keys (update_page page_id f d) = page_keys d \<longleftrightarrow>
   (page_id < length (pages d) \<longrightarrow>
      page_run_id (f (pages d ! page_id)) = page_run_id (pages d ! page_id) \<and>
      page_url (f (pages d ! page_id)) = page_url (pages d ! page_id))"
  by (auto simp: page_keys_def update_page_def map_update list_update_same_conv)

lemma page_keys_update_run [simp]: "page_keys (update_run run_id f d) = page_keys d"
  by (simp add: page_keys_def update_run_def split: option.splits)

lemma page_keys_exec [simp]: "page_keys (exec c d) = page_keys d"
  by (cases c) (simp_all add: page_keys_update_page, simp add: page_keys_def)

lemma page_keys_fold_exec [simp]: "page_keys (fold exec calls d) = page_keys d"
  by (induction calls arbitrary: d) simp_all

lemma page_keys_insert_page:
  "page_keys (fst (insert_page run_id url d)) =
     (if registered run_id url d then page_keys d else page_keys d @ [(run_id, url)])"
  by (simp add: insert_page_registered insert_page_new) (simp add: page_keys_def)

lemma page_keys_scan_page:
  "page_keys (fst (scan_page E url run_id netloc' keyword_rules exclude_rules d)) =
     (if registered run_id url d then page_keys d else page_keys d @ [(run_id, url)])"
proof (cases "registered run_id url d")
  case True
  then show ?thesis by (simp add: scan_page_def insert_page_registered)
next
  case False
  then show ?thesis
    using page_keys_insert_page [of run_id url d]
    by (simp add: scan_page_def insert_page_new del: exec.simps split: prod.splits)
qed

text \<open>
  C6.  When the pair of run and URL is already registered, \<open>insert_page\<close> reports the
  duplicate and leaves the store as it is, and the worker returns no links and leaves the
  store as it is: no counter is incremented, no page is marked, no match is written.  A
  worker never produces a second row for a pair, and after a worker has run, a second
  insert and a second worker for the same pair change nothing.
\<close>

theorem duplicate_registration:
  "(registered run_id url d \<longrightarrow>
      insert_page run_id url d = (d, None) \<and>
      scan_page E url run_id netloc' keyword_rules exclude_rules d = (d, []))
   \<and> (distinct (page_keys d) \<longrightarrow>
      distinct (page_keys (fst (scan_page E url run_id netloc' keyword_rules exclude_rules d))))
   \<and> (let d1 = fst (scan_page E url run_id netloc' keyword_rules exclude_rules d)
      in insert_page run_id url d1 = (d1, None) \<and>
         scan_page E url run_id netloc' keyword_rules exclude_rules d1 = (d1, []))"
proof -
  have a: "registered run_id url d' \<Longrightarrow>
      insert_page run_id url d' = (d', None) \<and>
      scan_page E url run_id netloc' keyword_rules exclude_rules d' = (d', [])" for d'
    by (simp add: scan_page_def insert_page_registered)
  have b: "distinct (page_keys d) \<Longrightarrow>
      distinct (page_keys (fst (scan_page E url run_id netloc' keyword_rules exclude_rules d)))"
    by (simp add: page_keys_scan_page registered_keys)
  have "registered run_id url (fst (scan_page E url run_id netloc' keyword_rules exclude_rules d))"
    by (simp add: registered_keys page_keys_scan_page)
  from a [OF this] a b show ?thesis by (simp add: Let_def)
qed

theorem duplicate_registration_witness:
  "registered 0 (U ''https://example.com'') db1 \<and> distinct (page_keys db1) \<and>
   insert_page 0 (U ''https://example.com'') db1 = (db1, None) \<and>
   scan_page env0 (U ''https://example.com'') 0 (U ''example.com'') [] [] db1 = (db1, [])"
proof -
  have r: "registered 0 (U ''https://example.com'') db1"
    by (simp add: registered_def db1_def)
  have k: "distinct (page_keys db1)"
    by (simp add: page_keys_def db1_def)
  from duplicate_registration [of 0 "U ''https://example.com''" db1 env0 "U ''example.com''" "[]" "[]"]
    r k show ?thesis by simp
qed

section \<open>The worker on a page that is not yet registered\<close>

lemma scan_page_new:
  "\<not> registered run_id url d \<Longrightarrow>
   scan_page E url run_id netloc' keyword_rules exclude_rules d =
     (fold exec
        ([increment_pages_found run_id 1, update_page_scanning (length (pages d))] @
         fst (scan_calls E url run_id keyword_rules exclude_rules (length (pages d))))
        (fst (insert_page run_id url d)),
      snd (scan_calls E url run_id keyword_rules exclude_rules (length (pages d))))"
  by (simp add: scan_page_def insert_page_new del: exec.simps split: prod.splits)

lemma db0_fresh: "\<not> registered 0 url db0"
  by (simp add: registered_def db0_def)

lemma db0_run:
  "crawl_runs db0 0 = Some \<lparr>run_status = U ''running'', pages_found = 0, pages_scanned = 0,
                              error_count = 0\<rparr>"
  by (simp add: db0_def)

section \<open>C5: a response that is not HTML\<close>

lemma scan_calls_non_html:
  "fetch E url = Inr response \<Longrightarrow>
   \<not> contains (U ''html'') (case content_type_header response of None \<Rightarrow> [] | Some v \<Rightarrow> v) \<Longrightarrow>
   scan_calls E url run_id keyword_rules exclude_rules page_id =
     ([update_page_failed page_id (U ''Non-HTML content-type''),
       increment_pages_scanned run_id], [])"
  by (simp add: scan_calls_def scan_try_def Let_def)

lemma scan_calls_raised:
  "scan_try E url run_id keyword_rules exclude_rules page_id = Inl (e, dl) \<Longrightarrow>
   \<exists>note links. scan_calls E url run_id keyword_rules exclude_rules page_id =
     ([update_page_failed page_id note, increment_error_count run_id,
       increment_pages_scanned run_id], links)"
  by (cases e) (simp_all add: scan_calls_def)


lemma run_after_failed:
  assumes "\<not> registered run_id url d" and "crawl_runs d run_id = Some r"
  shows "fold exec
           [increment_pages_found run_id 1, update_page_scanning (length (pages d)),
            update_page_failed (length (pages d)) note, increment_pages_scanned run_id]
           (fst (insert_page run_id url d)) =
         d\<lparr>crawl_runs := (crawl_runs d)(run_id \<mapsto>
              r\<lparr>pages_found := pages_found r + 1, pages_scanned := pages_scanned r + 1\<rparr>),
           pages := pages d @
             [\<lparr>page_run_id = run_id, page_url = url, page_status = U ''failed'',
               total_hits = 0, keywords_csv = None, page_notes = Some note\<rparr>]\<rparr>"
  using assms by (simp add: insert_page_new update_run_def update_page_def)

lemma run_after_error:
  assumes "\<not> registered run_id url d" and "crawl_runs d run_id = Some r"
  shows "fold exec
           [increment_pages_found run_id 1, update_page_scanning (length (pages d)),
            update_page_failed (length (pages d)) note, increment_error_count run_id,
            increment_pages_scanned run_id]
           (fst (insert_page run_id url d)) =
         d\<lparr>crawl_runs := (crawl_runs d)(run_id \<mapsto>
              r\<lparr>pages_found := pages_found r + 1, error_count := error_count r + 1,
                pages_scanned := pages_scanned r + 1\<rparr>),
           pages := pages d @
             [\<lparr>page_run_id = run_id, page_url = url, page_status = U ''failed'',
               total_hits = 0, keywords_csv = None, page_notes = Some note\<rparr>]\<rparr>"
  using assms by (simp add: insert_page_new update_run_def update_page_def)

text \<open>
  C5.  For a page that the worker registers in an existing run: when the fetch succeeds
  and the content type does not contain \<^verbatim>\<open>html\<close>, the worker returns no links, the
  page is \<^verbatim>\<open>failed\<close> with the note \<^verbatim>\<open>Non-HTML content-type\<close>, \<^verbatim>\<open>pages_scanned\<close> is
  incremented and \<^verbatim>\<open>error_count\<close> is unchanged; when the body of the \<^verbatim>\<open>try\<close> block raises
  (an HTTP status error, a request error or any other exception), the page is \<^verbatim>\<open>failed\<close>
  and both \<^verbatim>\<open>pages_scanned\<close> and \<^verbatim>\<open>error_count\<close> are incremented.
\<close>

theorem non_html_is_not_an_error:
  assumes "\<not> registered run_id url d" and "crawl_runs d run_id = Some r"
    and "scan_page E url run_id netloc' keyword_rules exclude_rules d = (d', links)"
  shows "(fetch E url = Inr response \<and>
          \<not> contains (U ''html'')
               (case content_type_header response of None \<Rightarrow> [] | Some v \<Rightarrow> v) \<longrightarrow>
            links = [] \<and>
            page_status (pages d' ! length (pages d)) = U ''failed'' \<and>
            page_notes (pages d' ! length (pages d)) = Some (U ''Non-HTML content-type'') \<and>
            counters d' run_id =
              Some (pages_found r + 1, pages_scanned r + 1, error_count r))
       \<and> (scan_try E url run_id keyword_rules exclude_rules (length (pages d)) = Inl (e, dl) \<longrightarrow>
            page_status (pages d' ! length (pages d)) = U ''failed'' \<and>
            counters d' run_id =
              Some (pages_found r + 1, pages_scanned r + 1, error_count r + 1))"
proof (intro conjI impI)
  assume h: "fetch E url = Inr response \<and>
          \<not> contains (U ''html'')
               (case content_type_header response of None \<Rightarrow> [] | Some v \<Rightarrow> v)"
  have d': "d' = d\<lparr>crawl_runs := (crawl_runs d)(run_id \<mapsto>
              r\<lparr>pages_found := pages_found r + 1, pages_scanned := pages_scanned r + 1\<rparr>),
           pages := pages d @
             [\<lparr>page_run_id = run_id, page_url = url, page_status = U ''failed'',
               total_hits = 0, keywords_csv = None,
               page_notes = Some (U ''Non-HTML content-type'')\<rparr>]\<rparr>"
    and l: "links = []"
    using assms(3) run_after_failed [OF assms(1,2)] h
    unfolding scan_page_new [OF assms(1)]
    by (simp_all add: scan_calls_non_html del: exec.simps)
  show "links = []" by (rule l)
  show "page_status (pages d' ! length (pages d)) = U ''failed''" by (simp add: d')
  show "page_notes (pages d' ! length (pages d)) = Some (U ''Non-HTML content-type'')"
    by (simp add: d')
  show "counters d' run_id = Some (pages_found r + 1, pages_scanned r + 1, error_count r)"
    by (simp add: d' counters_def)
next
  assume h: "scan_try E url run_id keyword_rules exclude_rules (length (pages d)) = Inl (e, dl)"
  from scan_calls_raised [OF h] obtain nt links' where
    c: "scan_calls E url run_id keyword_rules exclude_rules (length (pages d)) =
     ([update_page_failed (length (pages d)) nt, increment_error_count run_id,
       increment_pages_scanned run_id], links')" by blast
  have d': "d' = d\<lparr>crawl_runs := (crawl_runs d)(run_id \<mapsto>
              r\<lparr>pages_found := pages_found r + 1, error_count := error_count r + 1,
                pages_scanned := pages_scanned r + 1\<rparr>),
           pages := pages d @
             [\<lparr>page_run_id = run_id, page_url = url, page_status = U ''failed'',
               total_hits = 0, keywords_csv = None, page_notes = Some nt\<rparr>]\<rparr>"
    using assms(3) run_after_error [OF assms(1,2), of nt]
    unfolding scan_page_new [OF assms(1)] c
    by (simp del: exec.simps)
  show "page_status (pages d' ! length (pages d)) = U ''failed''" by (simp add: d')
  show "counters d' run_id = Some (pages_found r + 1, pages_scanned r + 1, error_count r + 1)"
    by (simp add: d' counters_def)
qed


theorem non_html_is_not_an_error_witness:
  "fetch env3 (U ''https://example.com/a.pdf'') = Inr pdf_response \<and>
   \<not> contains (U ''html'')
        (case content_type_header pdf_response of None \<Rightarrow> [] | Some v \<Rightarrow> v) \<and>
   snd (scan_page env3 (U ''https://example.com/a.pdf'') 0 (U ''example.com'') [] [] db0) = [] \<and>
   counters (fst (scan_page env3 (U ''https://example.com/a.pdf'') 0 (U ''example.com'') [] [] db0)) 0
     = Some (1, 1, 0) \<and>
   scan_try env0 (U ''https://example.com/a.pdf'') 0 [] [] 0
     = Inl (RequestError (U ''ConnectError''), []) \<and>
   counters (fst (scan_page env0 (U ''https://example.com/a.pdf'') 0 (U ''example.com'') [] [] db0)) 0
     = Some (1, 1, 1)"
proof -
  have f: "fetch env3 (U ''https://example.com/a.pdf'') = Inr pdf_response"
    by (simp add: env3_def)
  have c: "\<not> contains (U ''html'')
        (case content_type_header pdf_response of None \<Rightarrow> [] | Some v \<Rightarrow> v)"
    by (simp add: pdf_response_def U_def startswith_def)
  have t: "scan_try env0 (U ''https://example.com/a.pdf'') 0 [] [] (length (pages db0))
     = Inl (RequestError (U ''ConnectError''), [])"
    by (simp add: scan_try_def env0_def)
  have l: "length (pages db0) = 0" by (simp add: db0_def)
  from non_html_is_not_an_error
         [where E = env3 and url = "U ''https://example.com/a.pdf''" and netloc' = "U ''example.com''"
            and keyword_rules = "[]" and exclude_rules = "[]" and response = pdf_response,
          OF db0_fresh db0_run surjective_pairing]
       non_html_is_not_an_error
         [where E = env0 and url = "U ''https://example.com/a.pdf''" and netloc' = "U ''example.com''"
            and keyword_rules = "[]" and exclude_rules = "[]"
            and e = "RequestError (U ''ConnectError'')" and dl = "[]",
          OF db0_fresh db0_run surjective_pairing]
       f c t
  show ?thesis by (simp add: l)
qed

section \<open>C8: a page whose path matches an exclude rule\<close>

lemma scan_calls_excluded:
  assumes "fetch E url = Inr response"
    and "contains (U ''html'') (case content_type_header response of None \<Rightarrow> [] | Some v \<Rightarrow> v)"
    and "extract_links E (response_text response) url = Inr discovered"
    and "exclude_rules \<noteq> []" and "urlparse E url [] = Inr p"
    and "any_match E (path p) exclude_rules"
  shows "scan_calls E url run_id keyword_rules exclude_rules page_id =
     ([update_page_skipped page_id (U ''URL matched an exclude pattern''),
       increment_pages_scanned run_id], discovered)"
  using assms by (simp add: scan_calls_def scan_try_def Let_def)

lemma run_after_skipped:
  assumes "\<not> registered run_id url d" and "crawl_runs d run_id = Some r"
  shows "fold exec
           [increment_pages_found run_id 1, update_page_scanning (length (pages d)),
            update_page_skipped (length (pages d)) nt, increment_pages_scanned run_id]
           (fst (insert_page run_id url d)) =
         d\<lparr>crawl_runs := (crawl_runs d)(run_id \<mapsto>
              r\<lparr>pages_found := pages_found r + 1, pages_scanned := pages_scanned r + 1\<rparr>),
           pages := pages d @
             [\<lparr>page_run_id = run_id, page_url = url, page_status = U ''skipped'',
               total_hits = 0, keywords_csv = None, page_notes = Some nt\<rparr>]\<rparr>"
  using assms by (simp add: insert_page_new update_run_def update_page_def)

lemma extract_links_doc2:
  "extract_links env4 (response_text html_response) (U ''https://example.com/blog'') = Inr [U ''https://example.com/x'']"
  by (simp add: extract_links_def env4_def env0_def doc2_def hrefs_def find_all_def urlparse_def urlsplit_def Let_def U_def
     splitnetloc_def split_first_def ascii_alpha_def scheme_char_def ascii_lower_def uses_params_def
     urljoin_def uses_relative_def uses_netloc_def str_strip_def isspace_def startswith_def geturl_def urlunparse_def
     urlunsplit_def rstrip_def drop_empty_middle_def)


text \<open>
  C8.  For a page that the worker registers in an existing run, fetched as HTML, whose
  links were extracted, and whose path matches one of the exclude rules: the worker
  returns the extracted links, the page is \<^verbatim>\<open>skipped\<close> with the note
  \<^verbatim>\<open>URL matched an exclude pattern\<close>, \<^verbatim>\<open>pages_scanned\<close> is incremented, \<^verbatim>\<open>error_count\<close>
  is unchanged and no match is written.
\<close>

theorem excluded_page_is_skipped:
  assumes "\<not> registered run_id url d" and "crawl_runs d run_id = Some r"
    and "fetch E url = Inr response"
    and "contains (U ''html'') (case content_type_header response of None \<Rightarrow> [] | Some v \<Rightarrow> v)"
    and "extract_links E (response_text response) url = Inr discovered"
    and "exclude_rules \<noteq> []" and "urlparse E url [] = Inr p"
    and "any_match E (path p) exclude_rules"
    and "scan_page E url run_id netloc' keyword_rules exclude_rules d = (d', links)"
  shows "links = discovered \<and>
         page_status (pages d' ! length (pages d)) = U ''skipped'' \<and>
         page_notes (pages d' ! length (pages d)) = Some (U ''URL matched an exclude pattern'') \<and>
         counters d' run_id = Some (pages_found r + 1, pages_scanned r + 1, error_count r) \<and>
         page_matches d' = page_matches d"
proof -
  have d': "d' = d\<lparr>crawl_runs := (crawl_runs d)(run_id \<mapsto>
              r\<lparr>pages_found := pages_found r + 1, pages_scanned := pages_scanned r + 1\<rparr>),
           pages := pages d @
             [\<lparr>page_run_id = run_id, page_url = url, page_status = U ''skipped'',
               total_hits = 0, keywords_csv = None,
               page_notes = Some (U ''URL matched an exclude pattern'')\<rparr>]\<rparr>"
    and l: "links = discovered"
    using assms(9) run_after_skipped [OF assms(1,2)]
    unfolding scan_page_new [OF assms(1)] scan_calls_excluded [OF assms(3-8)]
    by (simp_all del: exec.simps)
  show ?thesis by (simp add: d' l counters_def)
qed

theorem excluded_page_is_skipped_witness:
  "fetch env4 (U ''https://example.com/blog'') = Inr html_response \<and>
   extract_links env4 (response_text html_response) (U ''https://example.com/blog'')
     = Inr [U ''https://example.com/x''] \<and>
   any_match env4 (U ''/blog'') exclude_blog \<and>
   snd (scan_page env4 (U ''https://example.com/blog'') 0 (U ''example.com'') [] exclude_blog db0)
     = [U ''https://example.com/x''] \<and>
   page_status (pages (fst (scan_page env4 (U ''https://example.com/blog'') 0 (U ''example.com'') []
      exclude_blog db0)) ! 0) = U ''skipped'' \<and>
   counters (fst (scan_page env4 (U ''https://example.com/blog'') 0 (U ''example.com'') []
      exclude_blog db0)) 0 = Some (1, 1, 0)"
proof -
  have f: "fetch env4 (U ''https://example.com/blog'') = Inr html_response"
    by (simp add: env4_def)
  have c: "contains (U ''html'')
        (case content_type_header html_response of None \<Rightarrow> [] | Some v \<Rightarrow> v)"
    by (simp add: html_response_def U_def startswith_def)
  have n: "exclude_blog \<noteq> []" by (simp add: exclude_blog_def)
  have p: "urlparse env4 (U ''https://example.com/blog'') [] =
      Inr \<lparr>scheme = U ''https'', netloc = U ''example.com'', path = U ''/blog'', params = [],
            query = [], fragment = []\<rparr>"
    by (simp add: urlparse_def urlsplit_def env4_def env0_def Let_def U_def splitnetloc_def
        split_first_def ascii_alpha_def scheme_char_def ascii_lower_def uses_params_def)
  have m: "any_match env4 (U ''/blog'') exclude_blog"
    by (simp add: any_match_def exclude_blog_def env4_def)
  have l: "length (pages db0) = 0" by (simp add: db0_def)
  from excluded_page_is_skipped [OF db0_fresh db0_run f c extract_links_doc2 n p _ surjective_pairing] m
       f extract_links_doc2
  show ?thesis by (simp add: l)
qed

section \<open>C7: pages scanned and pages found under every schedule\<close>

lemma exec_margin:
  "crawl_runs d r = Some row \<Longrightarrow>
   \<exists>row'. crawl_runs (exec c d) r = Some row' \<and>
     pages_found row' - pages_scanned row' = pages_found row - pages_scanned row + credit r c"
  by (cases c) (auto simp: update_run_def update_page_def split: option.splits)

lemma insert_page_runs: "insert_page run_id url d = (d', res) \<Longrightarrow> crawl_runs d' = crawl_runs d"
  by (auto simp: insert_page_def split: if_splits)

lemma sum_list_update:
  "i < length ts \<Longrightarrow>
   (\<Sum>t\<leftarrow>ts[i := x]. (f t :: int)) = (\<Sum>t\<leftarrow>ts. f t) - f (ts ! i) + f x"
proof (induction ts arbitrary: i)
  case Nil
  then show ?case by simp
next
  case (Cons a ts)
  then show ?case by (cases i) auto
qed

lemma scan_calls_shape:
  "\<exists>pre. fst (scan_calls E url run_id keyword_rules exclude_rules page_id) =
           pre @ [increment_pages_scanned run_id] \<and> (\<forall>c \<in> set pre. \<forall>r. credit r c = 0)"
  by (auto simp: scan_calls_def scan_try_def Let_def
           split: sum.splits exn.splits prod.splits if_splits bool.splits)

lemma settled_Nil [simp]: "settled r []"
  by (simp add: settled_def pending_def)

lemma settled_tail: "settled r (c # calls) \<Longrightarrow> settled r calls"
  unfolding settled_def
proof
  fix k assume "\<forall>k. pending r (drop k (c # calls)) \<le> 0"
  then have "pending r (drop (Suc k) (c # calls)) \<le> 0" by blast
  then show "pending r (drop k calls) \<le> 0" by simp
qed

lemma pending_neutral: "\<forall>c \<in> set pre. credit r c = 0 \<Longrightarrow> pending r pre = 0"
  by (induction pre) (auto simp: pending_def)

lemma settled_body:
  assumes "\<forall>c \<in> set pre. credit r c = 0"
  shows "pending r (drop k (pre @ [increment_pages_scanned run_id])) \<le> 0"
proof -
  have "\<forall>c \<in> set (drop k pre). credit r c = 0"
    using assms by (meson in_set_dropD)
  then have "pending r (drop k pre) = 0" by (rule pending_neutral)
  moreover have "pending r (drop (k - length pre) [increment_pages_scanned run_id]) \<le> 0"
    by (cases "k - length pre") (auto simp: pending_def)
  ultimately show ?thesis by (simp add: pending_def)
qed

lemma worker_settled:
  assumes "scan_calls E url run_id keyword_rules exclude_rules page_id = (calls, links)"
  shows "settled r ([increment_pages_found run_id 1, update_page_scanning page_id] @ calls)"
    and "pending r ([increment_pages_found run_id 1, update_page_scanning page_id] @ calls) = 0"
proof -
  from scan_calls_shape [of E url run_id keyword_rules exclude_rules page_id] assms
  obtain pre where c: "calls = pre @ [increment_pages_scanned run_id]"
    and n: "\<forall>c \<in> set pre. credit r c = 0" by auto
  have p: "pending r calls = (if run_id = r then - 1 else 0)"
    using pending_neutral [OF n] by (simp add: c pending_def)
  show "pending r ([increment_pages_found run_id 1, update_page_scanning page_id] @ calls) = 0"
    using p by (simp add: pending_def)
  show "settled r ([increment_pages_found run_id 1, update_page_scanning page_id] @ calls)"
    unfolding settled_def
  proof
    fix k
    show "pending r (drop k ([increment_pages_found run_id 1, update_page_scanning page_id] @ calls)) \<le> 0"
    proof (cases k)
      case 0
      then show ?thesis using p by (simp add: pending_def)
    next
      case (Suc j)
      show ?thesis
      proof (cases j)
        case 0
        then show ?thesis using p Suc by (simp add: pending_def)
      next
        case (Suc i)
        then show ?thesis using settled_body [OF n, of i run_id] \<open>k = Suc j\<close> by (simp add: c)
      qed
    qed
  qed
qed

lemma step_balance:
  assumes "step E keyword_rules exclude_rules s s'" and "balance r m s"
  shows "balance r m s'"
  using assms
proof (induction rule: step.induct)
  case (duplicate i ts run_id url d d')
  from duplicate(3) have "crawl_runs d' = crawl_runs d" by (rule insert_page_runs)
  moreover have "\<forall>t \<in> set (ts[i := Returned []]). settled r (task_calls t)"
    using duplicate(4) by (auto simp: balance_def dest!: set_update_subset_insert [THEN subsetD])
  ultimately show ?case
    using duplicate by (auto simp: balance_def sum_list_update pending_def)
next
  case (registered i ts run_id url d d' page_id calls links)
  from registered(3) have "crawl_runs d' = crawl_runs d" by (rule insert_page_runs)
  moreover note worker_settled [OF registered(4), of r]
  moreover from this have "\<forall>t \<in> set (ts[i := Active ([increment_pages_found run_id 1, update_page_scanning page_id] @ calls) links]).
      settled r (task_calls t)"
    using registered(5) by (auto simp: balance_def dest!: set_update_subset_insert [THEN subsetD])
  ultimately show ?case
    using registered(1,2,5) by (auto simp: balance_def sum_list_update pending_def)
next
  case (called i ts c calls links d)
  from called(3) obtain row where row: "crawl_runs d r = Some row"
    and m: "pages_found row - pages_scanned row + (\<Sum>t\<leftarrow>ts. pending r (task_calls t)) = m"
    by (auto simp: balance_def)
  from exec_margin [OF row, of c] obtain row' where row': "crawl_runs (exec c d) r = Some row'"
    and m': "pages_found row' - pages_scanned row' = pages_found row - pages_scanned row + credit r c"
    by blast
  have "settled r (c # calls)"
    using called by (auto simp: balance_def dest!: nth_mem)
  then have s: "settled r calls" by (rule settled_tail)
  have "\<forall>t \<in> set (ts[i := Active calls links]). settled r (task_calls t)"
    using called(3) s by (auto simp: balance_def dest!: set_update_subset_insert [THEN subsetD])
  moreover have "(\<Sum>t\<leftarrow>ts[i := Active calls links]. pending r (task_calls t)) =
     (\<Sum>t\<leftarrow>ts. pending r (task_calls t)) - credit r c"
    using called(1,2) by (simp add: sum_list_update pending_def)
  ultimately show ?case
    using row' m m' by (simp add: balance_def)
next
  case (returned i ts links d)
  moreover have "\<forall>t \<in> set (ts[i := Returned links]). settled r (task_calls t)"
    using returned(3) by (auto simp: balance_def dest!: set_update_subset_insert [THEN subsetD])
  ultimately show ?case
    by (auto simp: balance_def sum_list_update pending_def)
qed

lemma steps_balance:
  assumes "(step E keyword_rules exclude_rules)\<^sup>*\<^sup>* s s'" and "balance r m s"
  shows "balance r m s'"
  using assms by (induction rule: rtranclp_induct) (auto intro: step_balance)

lemma waiting_calls: "waiting t \<Longrightarrow> task_calls t = []"
  by (cases t) auto

lemma balance_margin:
  assumes "balance r m (d, ts)"
  shows "\<exists>row. crawl_runs d r = Some row \<and> m \<le> pages_found row - pages_scanned row"
proof -
  from assms obtain row where row: "crawl_runs d r = Some row"
    and m: "pages_found row - pages_scanned row + (\<Sum>t\<leftarrow>ts. pending r (task_calls t)) = m"
    and s: "\<forall>t \<in> set ts. settled r (task_calls t)"
    by (auto simp: balance_def)
  have "\<forall>t \<in> set ts. pending r (task_calls t) \<le> 0"
  proof
    fix t assume "t \<in> set ts"
    with s have "settled r (task_calls t)" by blast
    then have "pending r (drop 0 (task_calls t)) \<le> 0" unfolding settled_def by blast
    then show "pending r (task_calls t) \<le> 0" by simp
  qed
  then have "(\<Sum>t\<leftarrow>ts. pending r (task_calls t)) \<le> 0"
    by (induction ts) auto
  with row m show ?thesis by auto
qed

lemma scan_page_raised:
  assumes "\<not> registered run_id url d" and "crawl_runs d run_id = Some r"
    and "scan_try E url run_id keyword_rules exclude_rules (length (pages d)) = Inl (e, dl)"
  shows "counters (fst (scan_page E url run_id netloc' keyword_rules exclude_rules d)) run_id =
         Some (pages_found r + 1, pages_scanned r + 1, error_count r + 1)"
proof -
  from scan_calls_raised [OF assms(3)] obtain nt links where
    c: "scan_calls E url run_id keyword_rules exclude_rules (length (pages d)) =
     ([update_page_failed (length (pages d)) nt, increment_error_count run_id,
       increment_pages_scanned run_id], links)" by blast
  show ?thesis
    using run_after_error [OF assms(1,2), of nt]
    unfolding scan_page_new [OF assms(1)] c
    by (simp add: counters_def del: exec.simps)
qed

lemma run_calls:
  "(step E keyword_rules exclude_rules)\<^sup>*\<^sup>*
     (d, [Active calls links]) (fold exec calls d, [Returned links])"
proof (induction calls arbitrary: d)
  case Nil
  have "step E keyword_rules exclude_rules
          (d, [Active [] links]) (d, [Active [] links][0 := Returned links])"
    by (rule step.returned) simp_all
  then show ?case by (simp del: exec.simps)
next
  case (Cons c calls)
  have "step E keyword_rules exclude_rules
          (d, [Active (c # calls) links]) (exec c d, [Active (c # calls) links][0 := Active calls links])"
    by (rule step.called) simp_all
  then have "step E keyword_rules exclude_rules
          (d, [Active (c # calls) links]) (exec c d, [Active calls links])"
    by simp
  from converse_rtranclp_into_rtranclp [OF this Cons.IH [of "exec c d"]]
  show ?case by (simp del: exec.simps)
qed

lemma sequential_schedule:
  "(step E keyword_rules exclude_rules)\<^sup>*\<^sup>*
     (d, [Waiting run_id url])
     (fst (scan_page E url run_id netloc' keyword_rules exclude_rules d),
      [Returned (snd (scan_page E url run_id netloc' keyword_rules exclude_rules d))])"
proof (cases "registered run_id url d")
  case True
  then have i: "insert_page run_id url d = (d, None)" by (rule insert_page_registered)
  have "step E keyword_rules exclude_rules
          (d, [Waiting run_id url]) (d, [Waiting run_id url][0 := Returned []])"
    by (rule step.duplicate [OF _ _ i]) simp_all
  then show ?thesis using True by (simp add: scan_page_def i)
next
  case False
  obtain calls links where
    c: "scan_calls E url run_id keyword_rules exclude_rules (length (pages d)) = (calls, links)"
    by (cases "scan_calls E url run_id keyword_rules exclude_rules (length (pages d))")
  have i: "insert_page run_id url d = (fst (insert_page run_id url d), Some (length (pages d)))"
    using False by (simp add: insert_page_new)
  have "step E keyword_rules exclude_rules
          (d, [Waiting run_id url])
          (fst (insert_page run_id url d),
           [Waiting run_id url][0 := Active ([increment_pages_found run_id 1,
              update_page_scanning (length (pages d))] @ calls) links])"
    by (rule step.registered [OF _ _ i c]) simp_all
  then have "step E keyword_rules exclude_rules
          (d, [Waiting run_id url])
          (fst (insert_page run_id url d),
           [Active ([increment_pages_found run_id 1,
              update_page_scanning (length (pages d))] @ calls) links])"
    by simp
  from converse_rtranclp_into_rtranclp [OF this run_calls]
  show ?thesis
    unfolding scan_page_new [OF False] c by (simp del: exec.simps)
qed

text \<open>
  C7.  Start with tasks that have not yet registered their pages and a run whose
  \<^verbatim>\<open>pages_scanned\<close> does not exceed its \<^verbatim>\<open>pages_found\<close>.  Then in every state that any
  interleaving of the tasks' atomic calls reaches, \<^verbatim>\<open>pages_scanned\<close> does not exceed
  \<^verbatim>\<open>pages_found\<close>.  The calls of a registered worker start with the one increment of
  \<^verbatim>\<open>pages_found\<close> and end with the one increment of \<^verbatim>\<open>pages_scanned\<close>; no call in
  between touches either counter.
\<close>

theorem pages_scanned_le_pages_found:
  assumes "(step E keyword_rules exclude_rules)\<^sup>*\<^sup>* (d0, ts0) (d, ts)"
    and "\<forall>t \<in> set ts0. waiting t"
    and "crawl_runs d0 r = Some row0" and "pages_scanned row0 \<le> pages_found row0"
  shows "(\<exists>row. crawl_runs d r = Some row \<and> pages_scanned row \<le> pages_found row)
       \<and> (\<exists>mid. worker_calls E url run_id keyword_rules exclude_rules page_id =
                  increment_pages_found run_id 1 # mid @ [increment_pages_scanned run_id]
                \<and> (\<forall>c \<in> set mid. \<forall>r'. credit r' c = 0))"
proof
  have "(\<Sum>t\<leftarrow>ts0. pending r (task_calls t)) = 0"
    using assms(2) by (induction ts0) (auto simp: waiting_calls pending_def)
  then have "balance r (pages_found row0 - pages_scanned row0) (d0, ts0)"
    using assms(2,3) by (auto simp: balance_def waiting_calls)
  from steps_balance [OF assms(1) this] balance_margin assms(4)
  show "\<exists>row. crawl_runs d r = Some row \<and> pages_scanned row \<le> pages_found row"
    by fastforce
next
  from scan_calls_shape [of E url run_id keyword_rules exclude_rules page_id]
  obtain pre where p: "fst (scan_calls E url run_id keyword_rules exclude_rules page_id) =
           pre @ [increment_pages_scanned run_id]" and n: "\<forall>c \<in> set pre. \<forall>r. credit r c = 0"
    by blast
  show "\<exists>mid. worker_calls E url run_id keyword_rules exclude_rules page_id =
                  increment_pages_found run_id 1 # mid @ [increment_pages_scanned run_id]
                \<and> (\<forall>c \<in> set mid. \<forall>r'. credit r' c = 0)"
    by (rule exI [of _ "update_page_scanning page_id # pre"])
       (simp add: worker_calls_def p n)
qed

theorem pages_scanned_le_pages_found_witness:
  "(step env0 [] [])\<^sup>*\<^sup>* (db0, [Waiting 0 (U ''https://example.com'')])
     (fst (scan_page env0 (U ''https://example.com'') 0 (U ''example.com'') [] [] db0),
      [Returned (snd (scan_page env0 (U ''https://example.com'') 0 (U ''example.com'') [] [] db0))])
   \<and> waiting (Waiting 0 (U ''https://example.com''))
   \<and> counters db0 0 = Some (0, 0, 0)
   \<and> counters (fst (scan_page env0 (U ''https://example.com'') 0 (U ''example.com'') [] [] db0)) 0
       = Some (1, 1, 1)
   \<and> (\<exists>row. crawl_runs (fst (scan_page env0 (U ''https://example.com'') 0 (U ''example.com'') []
                [] db0)) 0 = Some row \<and> pages_scanned row \<le> pages_found row)"
proof -
  have w: "\<forall>t \<in> set [Waiting 0 (U ''https://example.com'')]. waiting t" by simp
  have c0: "counters db0 0 = Some (0, 0, 0)" by (simp add: counters_def db0_def)
  have t: "scan_try env0 (U ''https://example.com'') 0 [] [] (length (pages db0))
     = Inl (RequestError (U ''ConnectError''), [])"
    by (simp add: scan_try_def env0_def)
  have c1: "counters (fst (scan_page env0 (U ''https://example.com'') 0 (U ''example.com'') [] [] db0)) 0
       = Some (1, 1, 1)"
    using scan_page_raised [OF db0_fresh db0_run t] by simp
  have s: "(step env0 [] [])\<^sup>*\<^sup>* (db0, [Waiting 0 (U ''https://example.com'')])
     (fst (scan_page env0 (U ''https://example.com'') 0 (U ''example.com'') [] [] db0),
      [Returned (snd (scan_page env0 (U ''https://example.com'') 0 (U ''example.com'') [] [] db0))])"
    by (rule sequential_schedule)
  have i: "pages_scanned \<lparr>run_status = U ''running'', pages_found = 0, pages_scanned = 0,
                              error_count = 0\<rparr>
           \<le> pages_found \<lparr>run_status = U ''running'', pages_found = 0, pages_scanned = 0,
                              error_count = 0\<rparr>"
    by simp
  have w': "waiting (Waiting 0 (U ''https://example.com''))" by simp
  from pages_scanned_le_pages_found [OF s w db0_run i] s w' c0 c1
  show ?thesis by blast
qed

section \<open>C3: the link extractor and the host\<close>

lemma links_loop_spec:
  assumes "map (spec_link E base_url base_parsed) hs = map Inr cands"
  shows "links_loop E base_url base_parsed hs (set links) links =
         Inr (links @ spec_first_seen (filter (\<lambda>l. l \<notin> set links) (List.map_filter id cands)))"
  using assms
proof (induction hs arbitrary: cands links)
  case Nil
  then show ?case by (simp add: List.map_filter_def)
next
  case (Cons h hs)
  from Cons.prems obtain c cs where cands: "cands = c # cs"
    and c: "spec_link E base_url base_parsed h = Inr c"
    and cs: "map (spec_link E base_url base_parsed) hs = map Inr cs"
    by (cases cands) auto
  note IH = Cons.IH [OF cs]
  show ?case
  proof (cases c)
    case None
    with c have "links_loop E base_url base_parsed (h # hs) (set links) links =
                 links_loop E base_url base_parsed hs (set links) links"
      by (auto simp: spec_link_def spec_pseudo_link_def Let_def split: sum.splits if_splits)
    then show ?thesis using IH [of links] by (simp add: cands None List.map_filter_def)
  next
    case (Some l)
    with c have step: "links_loop E base_url base_parsed (h # hs) (set links) links =
         (if l \<notin> set links
          then links_loop E base_url base_parsed hs (set (links @ [l])) (links @ [l])
          else links_loop E base_url base_parsed hs (set links) links)"
      by (auto simp: spec_link_def spec_pseudo_link_def Let_def split: sum.splits if_splits)
    show ?thesis
    proof (cases "l \<in> set links")
      case True
      then show ?thesis using step IH [of links] by (simp add: cands Some List.map_filter_def)
    next
      case False
      have f: "filter (\<lambda>y. y \<noteq> l) (filter (\<lambda>y. y \<notin> set links) xs) =
               filter (\<lambda>y. y \<notin> set (links @ [l])) xs" for xs
        by (induction xs) auto
      have g: "filter (\<lambda>y. y \<noteq> l \<and> y \<notin> set links) xs =
               filter (\<lambda>y. y \<notin> set links \<and> y \<noteq> l) xs" for xs
        by (rule filter_cong) auto
      show ?thesis
        using False step IH [of "links @ [l]"] by (simp add: cands Some List.map_filter_def f g)
    qed
  qed
qed

lemma spec_link_same_host:
  "spec_link E base_url base_parsed h = Inr (Some l) \<Longrightarrow>
   \<exists>full parsed. urljoin E base_url (str_strip h) = Inr full \<and> urlparse E full [] = Inr parsed \<and>
      scheme parsed \<in> {U ''http'', U ''https''} \<and> netloc parsed = netloc base_parsed \<and>
      l = rstrip (U ''/'') (geturl (parsed\<lparr>fragment := []\<rparr>))"
  by (auto simp: spec_link_def Let_def split: sum.splits if_splits)

lemma set_spec_first_seen: "set (spec_first_seen xs) = set xs"
  by (induction xs rule: spec_first_seen.induct) auto

lemma distinct_spec_first_seen: "distinct (spec_first_seen xs)"
  by (induction xs rule: spec_first_seen.induct) (auto simp: set_spec_first_seen)

lemmas url_eval =
  urlparse_def urlsplit_def Let_def U_def splitnetloc_def split_first_def ascii_alpha_def
  scheme_char_def ascii_lower_def uses_params_def urljoin_def uses_relative_def uses_netloc_def
  geturl_def urlunparse_def urlunsplit_def rstrip_def drop_empty_middle_def splitparams_def

lemma hrefs_doc2: "hrefs doc2 = [U ''/x'', U ''https://other.example/y'']"
  by (simp add: hrefs_def doc2_def find_all_def U_def)

lemma urlparse_blog: "urlparse env4 (U ''https://example.com/blog'') [] = Inr base_blog"
  by (simp add: env4_def env0_def base_blog_def url_eval)

lemma extract_links_spec:
  assumes "BeautifulSoup E html = Inr soup" and "urlparse E base_url [] = Inr base_parsed"
    and "map (spec_link E base_url base_parsed) (hrefs soup) = map Inr cands"
  shows "extract_links E html base_url = Inr (spec_first_seen (List.map_filter id cands))
       \<and> (\<forall>l \<in> set (spec_first_seen (List.map_filter id cands)).
            \<exists>h \<in> set (hrefs soup). \<exists>full parsed.
              urljoin E base_url (str_strip h) = Inr full \<and> urlparse E full [] = Inr parsed \<and>
              scheme parsed \<in> {U ''http'', U ''https''} \<and> netloc parsed = netloc base_parsed \<and>
              l = rstrip (U ''/'') (geturl (parsed\<lparr>fragment := []\<rparr>)))"
proof
  show "extract_links E html base_url = Inr (spec_first_seen (List.map_filter id cands))"
    using links_loop_spec [OF assms(3), of "[]"] assms(1,2) by (simp add: extract_links_def)
next
  show "\<forall>l \<in> set (spec_first_seen (List.map_filter id cands)).
            \<exists>h \<in> set (hrefs soup). \<exists>full parsed.
              urljoin E base_url (str_strip h) = Inr full \<and> urlparse E full [] = Inr parsed \<and>
              scheme parsed \<in> {U ''http'', U ''https''} \<and> netloc parsed = netloc base_parsed \<and>
              l = rstrip (U ''/'') (geturl (parsed\<lparr>fragment := []\<rparr>))"
  proof
    fix l assume "l \<in> set (spec_first_seen (List.map_filter id cands))"
    then have "Some l \<in> set cands"
      by (auto simp: set_spec_first_seen List.map_filter_def)
    then have "Inr (Some l) \<in> set (map (spec_link E base_url base_parsed) (hrefs soup))"
      unfolding assms(3) by auto
    then obtain h where h: "h \<in> set (hrefs soup)"
      and s: "spec_link E base_url base_parsed h = Inr (Some l)" by auto
    from spec_link_same_host [OF s] h
    show "\<exists>h \<in> set (hrefs soup). \<exists>full parsed.
              urljoin E base_url (str_strip h) = Inr full \<and> urlparse E full [] = Inr parsed \<and>
              scheme parsed \<in> {U ''http'', U ''https''} \<and> netloc parsed = netloc base_parsed \<and>
              l = rstrip (U ''/'') (geturl (parsed\<lparr>fragment := []\<rparr>))"
      by blast
  qed
qed

lemma enqueue_links_filter:
  "enqueue_links E netloc' visited links queue = Inr queue' \<Longrightarrow>
   queue' = queue @
     filter (\<lambda>l. (\<exists>n. normalise_url E l = Inr n \<and> n \<notin> set visited) \<and>
                 same_host E l netloc' = Inr True) links"
proof (induction links arbitrary: queue)
  case Nil
  then show ?case by simp
next
  case (Cons link rest)
  from Cons.prems show ?case
    by (auto split: sum.splits if_splits bool.splits dest!: Cons.IH)
qed

text \<open>
  C3 as stated fails: \<open>extract_links\<close> itself skips every link whose network location
  differs from that of the base URL.  The second link of \<open>doc2\<close> resolves to an HTTPS URL
  on another host and is not returned.
\<close>

theorem extract_links_cross_host_counterexample:
  "U ''https://other.example/y'' \<in> set (hrefs doc2) \<and>
   urljoin env4 (U ''https://example.com/blog'') (U ''https://other.example/y'')
     = Inr (U ''https://other.example/y'') \<and>
   urlparse env4 (U ''https://other.example/y'') []
     = Inr \<lparr>scheme = U ''https'', netloc = U ''other.example'', path = U ''/y'', params = [],
             query = [], fragment = []\<rparr> \<and>
   extract_links env4 (response_text html_response) (U ''https://example.com/blog'')
     = Inr [U ''https://example.com/x''] \<and>
   U ''https://other.example/y'' \<notin> set [U ''https://example.com/x'']"
proof -
  have a: "U ''https://other.example/y'' \<in> set (hrefs doc2)" by (simp add: hrefs_doc2)
  have b: "urljoin env4 (U ''https://example.com/blog'') (U ''https://other.example/y'')
     = Inr (U ''https://other.example/y'')"
    by (simp add: env4_def env0_def url_eval)
  have c: "urlparse env4 (U ''https://other.example/y'') []
     = Inr \<lparr>scheme = U ''https'', netloc = U ''other.example'', path = U ''/y'', params = [],
             query = [], fragment = []\<rparr>"
    by (simp add: env4_def env0_def url_eval)
  have d: "U ''https://other.example/y'' \<notin> set [U ''https://example.com/x'']"
    by (simp add: U_def)
  from a b c d extract_links_doc2 show ?thesis by blast
qed

text \<open>
  C3, amended.  When the parser, the parsing of the base URL and the resolution of every
  reference succeed, \<open>extract_links\<close> returns the hyperlinks that resolve to an HTTP or
  HTTPS URL on the network location of the base URL and are not pseudo-links, with the
  fragment dropped and the trailing slash trimmed, deduplicated, in first-seen order;
  every returned link comes from a reference whose resolved network location is that of
  the base URL.  The orchestrator applies its own test to the links a worker returns: it
  appends to the queue, in order, exactly the links whose normal form is not yet visited
  and whose network location is the target host.
\<close>

theorem extract_links_same_host:
  assumes "BeautifulSoup E html = Inr soup" and "urlparse E base_url [] = Inr base_parsed"
    and "map (spec_link E base_url base_parsed) (hrefs soup) = map Inr cands"
    and "enqueue_links E netloc' visited links queue = Inr queue'"
  shows "extract_links E html base_url = Inr (spec_first_seen (List.map_filter id cands))
       \<and> (\<forall>l \<in> set (spec_first_seen (List.map_filter id cands)).
            \<exists>h \<in> set (hrefs soup). \<exists>full parsed.
              urljoin E base_url (str_strip h) = Inr full \<and> urlparse E full [] = Inr parsed \<and>
              scheme parsed \<in> {U ''http'', U ''https''} \<and> netloc parsed = netloc base_parsed \<and>
              l = rstrip (U ''/'') (geturl (parsed\<lparr>fragment := []\<rparr>)))
       \<and> queue' = queue @
            filter (\<lambda>l. (\<exists>n. normalise_url E l = Inr n \<and> n \<notin> set visited) \<and>
                        same_host E l netloc' = Inr True) links"
  using extract_links_spec [OF assms(1-3)] enqueue_links_filter [OF assms(4)] by blast

theorem extract_links_same_host_witness:
  "BeautifulSoup env4 (response_text html_response) = Inr doc2 \<and>
   urlparse env4 (U ''https://example.com/blog'') [] = Inr base_blog \<and>
   map (spec_link env4 (U ''https://example.com/blog'') base_blog) (hrefs doc2)
     = map Inr [Some (U ''https://example.com/x''), None] \<and>
   extract_links env4 (response_text html_response) (U ''https://example.com/blog'')
     = Inr [U ''https://example.com/x''] \<and>
   enqueue_links env4 (U ''example.com'') [U ''https://example.com/blog'']
     [U ''https://example.com/x'', U ''https://other.example/y''] []
     = Inr [U ''https://example.com/x'']"
proof -
  have a: "BeautifulSoup env4 (response_text html_response) = Inr doc2" by (simp add: env4_def)
  have c: "map (spec_link env4 (U ''https://example.com/blog'') base_blog) (hrefs doc2)
     = map Inr [Some (U ''https://example.com/x''), None]"
    by (simp add: hrefs_doc2 spec_link_def spec_pseudo_link_def str_strip_def isspace_def
        startswith_def env4_def env0_def base_blog_def url_eval)
  have n: "normalise_url env4 (U ''https://example.com/x'') = Inr (U ''https://example.com/x'')"
          "normalise_url env4 (U ''https://other.example/y'') = Inr (U ''https://other.example/y'')"
    by (simp_all add: normalise_url_def env4_def env0_def url_eval)
  have h: "same_host env4 (U ''https://example.com/x'') (U ''example.com'') = Inr True"
          "same_host env4 (U ''https://other.example/y'') (U ''example.com'') = Inr False"
    by (simp_all add: same_host_def env4_def env0_def url_eval)
  have e: "enqueue_links env4 (U ''example.com'') [U ''https://example.com/blog'']
     [U ''https://example.com/x'', U ''https://other.example/y''] []
     = Inr [U ''https://example.com/x'']"
    by (simp add: n h) (simp add: U_def)
  from extract_links_same_host [OF a urlparse_blog c e] a urlparse_blog c e show ?thesis
    by (simp add: List.map_filter_def)
qed

section \<open>C10: the URLs of the frontier\<close>

lemma rstrip_no_trailing: "\<not> endswith (rstrip [c] s) [c]"
proof -
  define ys where "ys = dropWhile (\<lambda>x. x = c) (rev s)"
  have r: "rstrip [c] s = rev ys" by (simp add: rstrip_def ys_def)
  have "ys \<noteq> [] \<Longrightarrow> hd ys \<noteq> c"
    unfolding ys_def using hd_dropWhile [of "\<lambda>x. x = c" "rev s"] by simp
  then have "ys \<noteq> [] \<Longrightarrow> last (rev ys) \<noteq> c" by (simp add: last_rev)
  then show ?thesis by (auto simp: endswith_char r)
qed

lemma links_loop_all:
  assumes "links_loop E base_url base_parsed hs seen links = Inr out"
    and "\<forall>l \<in> set links. \<not> endswith l (U ''/'')"
  shows "\<forall>l \<in> set out. \<not> endswith l (U ''/'')"
  using assms
proof (induction hs arbitrary: seen links)
  case Nil
  then show ?case by simp
next
  case (Cons h hs)
  have r: "\<not> endswith (rstrip (U ''/'') s) (U ''/'')" for s
    using rstrip_no_trailing [of 47 s] by (simp add: U_def)
  from Cons.prems show ?case
    by (auto simp: Let_def r split: if_splits sum.splits dest!: Cons.IH)
qed

lemma normalise_url_no_trailing:
  "normalise_url E url = Inr n \<Longrightarrow> \<not> endswith n (U ''/'')"
  using rstrip_no_trailing [of 47] by (auto simp: normalise_url_def U_def split: sum.splits)

lemma build_batch_norms:
  assumes "build_batch E queue visited batch = Inr (queue', visited', batch')"
    and "distinct visited"
  shows "distinct visited' \<and>
         (\<exists>urls new. batch' = batch @ urls \<and> visited' = visited @ new \<and>
            map (normalise_url E) urls = map Inr new)"
  using assms
proof (induction queue arbitrary: visited batch)
  case Nil
  then show ?case by simp
next
  case (Cons url queue)
  show ?case
  proof (cases "int (length batch) < crawl_concurrency (settings E)")
    case False
    with Cons.prems show ?thesis by simp
  next
    case True
    with Cons.prems obtain norm where n: "normalise_url E url = Inr norm"
      by (auto split: sum.splits)
    show ?thesis
    proof (cases "norm \<in> set visited")
      case v: True
      with Cons.prems True n have "build_batch E queue visited batch = Inr (queue', visited', batch')"
        by simp
      from Cons.IH [OF this Cons.prems(2)] show ?thesis .
    next
      case v: False
      with Cons.prems True n
      have b: "build_batch E queue (visited @ [norm]) (batch @ [url]) = Inr (queue', visited', batch')"
        by simp
      have d: "distinct (visited @ [norm])" using v Cons.prems(2) by simp
      from Cons.IH [OF b d] obtain urls new where
        "distinct visited'" "batch' = (batch @ [url]) @ urls" "visited' = (visited @ [norm]) @ new"
        "map (normalise_url E) urls = map Inr new" by blast
      then have "distinct visited' \<and> batch' = batch @ (url # urls) \<and> visited' = visited @ (norm # new) \<and>
            map (normalise_url E) (url # urls) = map Inr (norm # new)"
        using n by simp
      then show ?thesis by blast
    qed
  qed
qed

lemmas web_eval = env_web_def env5_def env0_def doc3_def html_response_def hrefs_def find_all_def
  str_strip_def isspace_def startswith_def url_eval

lemma web_links: "extract_links env_web html (U ''https://example.com/blog'') = Inr [U ''https://example.com/b?'']"
  "extract_links env_web html (U ''https://example.com/b?'') = Inr [U ''https://example.com/b?'']"
  by (simp_all add: extract_links_def web_eval)

lemma web_segments: "extract_segments env_web html =
   Inr [\<lparr>seg_text = U ''b'', seg_tag = U ''a'', char_offset = 0\<rparr>]"
  by (simp add: extract_segments_def env_web_def env5_def env0_def doc3_def find_all_def
      EXCLUDED_CONTAINERS_def ALLOWED_TAGS_def U_def has_allowed_ancestor_def segment_text_def
      get_text_def str_split_def str_strip_def isspace_def)

lemma web_calls:
  "scan_calls env_web (U ''https://example.com/blog'') 0 [] [] page_id =
     ([insert_matches [], update_page_completed page_id 0 None, increment_pages_scanned 0],
      [U ''https://example.com/b?''])"
  "scan_calls env_web (U ''https://example.com/b?'') 0 [] [] page_id =
     ([insert_matches [], update_page_completed page_id 0 None, increment_pages_scanned 0],
      [U ''https://example.com/b?''])"
proof -
  have f: "fetch env_web url = Inr html_response" for url by (simp add: env_web_def)
  have c: "contains (U ''html'') (case content_type_header html_response of None \<Rightarrow> [] | Some v \<Rightarrow> v)"
    by (simp add: html_response_def U_def startswith_def)
  have m: "all_matches_of env_web page_id [] segs = []" for segs
    by (simp add: all_matches_of_def find_matches_def)
  show "scan_calls env_web (U ''https://example.com/blog'') 0 [] [] page_id =
     ([insert_matches [], update_page_completed page_id 0 None, increment_pages_scanned 0],
      [U ''https://example.com/b?''])"
    by (simp add: scan_calls_def scan_try_def f c web_links web_segments m Let_def)
  show "scan_calls env_web (U ''https://example.com/b?'') 0 [] [] page_id =
     ([insert_matches [], update_page_completed page_id 0 None, increment_pages_scanned 0],
      [U ''https://example.com/b?''])"
    by (simp add: scan_calls_def scan_try_def f c web_links web_segments m Let_def)
qed

lemma web_norm:
  "normalise_url env_web (U ''https://example.com/blog'') = Inr (U ''https://example.com/blog'')"
  "normalise_url env_web (U ''https://example.com/b?'') = Inr (U ''https://example.com/b'')"
  "same_host env_web (U ''https://example.com/b?'') (U ''example.com'') = Inr True"
  "urlparse env_web (U ''https://example.com/blog'') [] = Inr base_blog"
  by (simp_all add: normalise_url_def same_host_def env_web_def env5_def env0_def base_blog_def url_eval)


lemma web_start: "exec (start_run 0) db_pending = web_db (U ''running'') 0 []"
  by (simp add: db_pending_def web_db_def update_run_def)

lemma web_scan1:
  "scan_page env_web (U ''https://example.com/blog'') 0 (U ''example.com'') [] []
     (web_db (U ''running'') 0 []) =
   (web_db (U ''running'') 1 [web_page (U ''https://example.com/blog'')],
    [U ''https://example.com/b?''])"
  by (simp add: scan_page_def insert_page_def web_calls web_db_def web_page_def update_run_def
      update_page_def)

lemma web_scan2:
  "scan_page env_web (U ''https://example.com/b?'') 0 (U ''example.com'') [] []
     (web_db (U ''running'') 1 [web_page (U ''https://example.com/blog'')]) =
   (web_db (U ''running'') 2
      [web_page (U ''https://example.com/blog''), web_page (U ''https://example.com/b?'')],
    [U ''https://example.com/b?''])"
  by (simp add: scan_page_def insert_page_def web_calls web_db_def web_page_def update_run_def
      update_page_def) (simp add: U_def)

lemma web_settings: "crawl_concurrency (settings env_web) = 8"
  "max_pages_per_run (settings env_web) = 500" "client_error env_web = None"
  by (simp_all add: env_web_def env5_def env0_def)

lemma web_loop:
  "crawl_loop 3 env_web 0 (U ''example.com'') [] [] [] [U ''https://example.com/blog'']
     (web_db (U ''running'') 0 []) =
   Some (None, web_db (U ''running'') 2
      [web_page (U ''https://example.com/blog''), web_page (U ''https://example.com/b?'')])"
proof -
  have n3: "(3::nat) = Suc (Suc (Suc 0))" by simp
  have ne: "U ''https://example.com/b'' \<noteq> U ''https://example.com/blog''"
    "U ''https://example.com/blog'' \<noteq> U ''https://example.com/b''"
    by (simp_all add: U_def)
  show ?thesis
    unfolding n3
    by (simp add: web_norm web_settings web_scan1 web_scan2 ne del: One_nat_def)
qed

lemma web_crawl:
  "crawl_run 3 env_web 0 (U ''example.com/blog'') [] [] db_pending =
   Some (None, web_db (U ''completed'') 2
      [web_page (U ''https://example.com/blog''), web_page (U ''https://example.com/b?'')])"
proof -
  have s: "\<not> startswith (U ''example.com/blog'') (U ''http://'')"
          "\<not> startswith (U ''example.com/blog'') (U ''https://'')"
          "U ''https://'' @ U ''example.com/blog'' = U ''https://example.com/blog''"
    by (simp_all add: startswith_def U_def)
  have l: "netloc base_blog = U ''example.com''" by (simp add: base_blog_def)
  show ?thesis
    unfolding crawl_run_def web_start Let_def
    by (simp add: s web_norm l web_settings web_loop del: exec.simps)
       (simp add: web_db_def update_run_def)
qed

text \<open>
  C10.  \<open>extract_links\<close> trims the trailing slash from the whole URL, query included.  For
  the reference \<^verbatim>\<open>https://example.com/b?/\<close>, whose query is \<^verbatim>\<open>/\<close>, it returns
  \<^verbatim>\<open>https://example.com/b?\<close>: the query is lost and a bare delimiter is left, which the next
  parse drops, so the normal form of the link is \<^verbatim>\<open>https://example.com/b\<close> and the link is not
  a fixed point of the normalisation.  The orchestrator appends the link to the queue, puts
  it into a batch and the worker registers the page under it, as it is; a crawl of a site
  whose pages carry that reference ends with a page registered under
  \<^verbatim>\<open>https://example.com/b?\<close>.
\<close>

theorem frontier_url_not_normalised:
  "urlparse env5 (U ''https://example.com/b?/'') []
     = Inr \<lparr>scheme = U ''https'', netloc = U ''example.com'', path = U ''/b'', params = [],
             query = U ''/'', fragment = []\<rparr>
   \<and> extract_links env5 [] (U ''https://example.com/blog'') = Inr [U ''https://example.com/b?'']
   \<and> normalise_url env5 (U ''https://example.com/b?'') = Inr (U ''https://example.com/b'')
   \<and> U ''https://example.com/b'' \<noteq> U ''https://example.com/b?''
   \<and> enqueue_links env5 (U ''example.com'') [U ''https://example.com/blog'']
        [U ''https://example.com/b?''] [] = Inr [U ''https://example.com/b?'']
   \<and> build_batch env5 [U ''https://example.com/b?''] [U ''https://example.com/blog''] []
        = Inr ([], [U ''https://example.com/blog'', U ''https://example.com/b''],
               [U ''https://example.com/b?''])
   \<and> page_keys (fst (scan_page env5 (U ''https://example.com/b?'') 0 (U ''example.com'') [] []
        db0)) = [(0, U ''https://example.com/b?'')]
   \<and> crawl_run 3 env_web 0 (U ''example.com/blog'') [] [] db_pending =
       Some (None, web_db (U ''completed'') 2
         [web_page (U ''https://example.com/blog''), web_page (U ''https://example.com/b?'')])"
proof -
  have u: "urlparse env5 (U ''https://example.com/b?/'') []
     = Inr \<lparr>scheme = U ''https'', netloc = U ''example.com'', path = U ''/b'', params = [],
             query = U ''/'', fragment = []\<rparr>"
    by (simp add: env5_def env0_def url_eval)
  have n: "normalise_url env5 (U ''https://example.com/b?'') = Inr (U ''https://example.com/b'')"
    by (simp add: normalise_url_def env5_def env0_def url_eval)
  have s: "same_host env5 (U ''https://example.com/b?'') (U ''example.com'') = Inr True"
    by (simp add: same_host_def env5_def env0_def url_eval)
  have a: "extract_links env5 [] (U ''https://example.com/blog'') = Inr [U ''https://example.com/b?'']"
    by (simp add: extract_links_def env5_def env0_def doc3_def hrefs_def find_all_def
        str_strip_def isspace_def startswith_def url_eval)
  have b: "enqueue_links env5 (U ''example.com'') [U ''https://example.com/blog'']
        [U ''https://example.com/b?''] [] = Inr [U ''https://example.com/b?'']"
    by (simp add: n s) (simp add: U_def)
  have c: "build_batch env5 [U ''https://example.com/b?''] [U ''https://example.com/blog''] []
        = Inr ([], [U ''https://example.com/blog'', U ''https://example.com/b''],
               [U ''https://example.com/b?''])"
    by (simp add: n) (simp add: U_def env5_def env0_def)
  have d: "U ''https://example.com/b'' \<noteq> U ''https://example.com/b?''" by (simp add: U_def)
  have k: "page_keys (fst (scan_page env5 (U ''https://example.com/b?'') 0 (U ''example.com'') [] []
        db0)) = [(0, U ''https://example.com/b?'')]"
    using db0_fresh [of "U ''https://example.com/b?''"]
    by (simp add: page_keys_scan_page) (simp add: page_keys_def db0_def)
  from u a n d b c k web_crawl show ?thesis by blast
qed

section \<open>C4: faults of the orchestrator\<close>

lemma urlparse_seed:
  "host_error E (U ''example.com'') = None \<Longrightarrow>
   urlparse E (U ''https://example.com'') [] =
     Inr \<lparr>scheme = U ''https'', netloc = U ''example.com'', path = [], params = [],
           query = [], fragment = []\<rparr>"
  by (simp add: url_eval)

lemma start_pending:
  "exec (start_run 0) db_pending =
     db_pending\<lparr>crawl_runs := [0 \<mapsto> \<lparr>run_status = U ''running'', pages_found = 0,
                                          pages_scanned = 0, error_count = 0\<rparr>]\<rparr>"
  by (simp add: db_pending_def update_run_def)

lemma crawl_run_client_error_marks_failed:
  "crawl_run n env7 0 (U ''example.com'') [] [] db_pending =
     Some (None,
           db_pending\<lparr>crawl_runs := [0 \<mapsto> \<lparr>run_status = U ''failed'', pages_found = 0,
                                                pages_scanned = 0, error_count = 0\<rparr>]\<rparr>)"
proof -
  have h: "host_error env7 (U ''example.com'') = None" by (simp add: env7_def env0_def)
  have s: "\<not> startswith (U ''example.com'') (U ''http://'')"
          "\<not> startswith (U ''example.com'') (U ''https://'')"
          "U ''https://'' @ U ''example.com'' = U ''https://example.com''"
    by (simp_all add: startswith_def U_def)
  have n: "normalise_url env7 (U ''https://example.com'') = Inr (U ''https://example.com'')"
    by (simp add: normalise_url_def urlparse_seed [OF h]) (simp add: url_eval)
  have c: "client_error env7 = Some (Exception (U ''client construction failed''))"
          "\<not> crawl_concurrency (settings env7) < 0"
    by (simp_all add: env7_def env0_def)
  show ?thesis
    unfolding crawl_run_def start_pending Let_def
    by (simp add: s urlparse_seed [OF h] n c) (simp add: db_pending_def update_run_def)
qed


text \<open>
  Whenever \<^verbatim>\<open>crawl_run\<close> returns, the run is \<^verbatim>\<open>completed\<close> or \<^verbatim>\<open>failed\<close>: every fault
  inside the \<^verbatim>\<open>try\<close> block is handled, and the workers return their faults as page
  outcomes.  Whenever it raises, the run is left \<^verbatim>\<open>running\<close>.
\<close>

lemma exec_dom: "dom (crawl_runs (exec c d)) = dom (crawl_runs d)"
  by (cases c) (auto simp: update_run_def update_page_def split: option.splits if_splits)

lemma fold_exec_dom: "dom (crawl_runs (fold exec calls d)) = dom (crawl_runs d)"
  by (induction calls arbitrary: d) (simp_all add: exec_dom del: exec.simps)

lemma scan_page_dom:
  "dom (crawl_runs (fst (scan_page E url run_id netloc' keyword_rules exclude_rules d))) =
   dom (crawl_runs d)"
proof (cases "registered run_id url d")
  case True
  then show ?thesis by (simp add: scan_page_def insert_page_registered)
next
  case False
  have "crawl_runs (fst (insert_page run_id url d)) = crawl_runs d"
    using insert_page_runs [of run_id url d] by (cases "insert_page run_id url d") auto
  then show ?thesis
    unfolding scan_page_new [OF False] by (simp add: fold_exec_dom del: exec.simps fold.simps)
qed

lemma run_batch_dom:
  "dom (crawl_runs (fst (run_batch E run_id netloc' keyword_rules exclude_rules batch d))) =
   dom (crawl_runs d)"
proof (induction batch arbitrary: d)
  case Nil
  show ?case by simp
next
  case (Cons url batch)
  show ?case
    using Cons.IH [of "fst (scan_page E url run_id netloc' keyword_rules exclude_rules d)"]
          scan_page_dom [of E url run_id netloc' keyword_rules exclude_rules d]
    by (simp add: split_beta Let_def)
qed

lemma crawl_loop_dom:
  "crawl_loop n E run_id netloc' keyword_rules exclude_rules visited queue d = Some (res, d') \<Longrightarrow>
   dom (crawl_runs d') = dom (crawl_runs d)"
proof (induction n arbitrary: visited queue d)
  case 0
  then show ?case by simp
next
  case (Suc n)
  show ?case
  proof (cases "queue = [] \<or> int (length visited) \<ge> max_pages_per_run (settings E)")
    case True
    with Suc.prems show ?thesis by (auto split: if_splits)
  next
    case False
    show ?thesis
    proof (cases "build_batch E queue visited []")
      case (Inl e)
      with Suc.prems False show ?thesis by simp
    next
      case (Inr b)
      obtain queue1 visited1 batch where b: "b = (queue1, visited1, batch)" by (cases b)
      show ?thesis
      proof (cases "batch = []")
        case True
        with Suc.prems False Inr b
        have "crawl_loop n E run_id netloc' keyword_rules exclude_rules visited1 queue1 d = Some (res, d')"
          by simp
        then show ?thesis by (rule Suc.IH)
      next
        case nb: False
        define d1 where "d1 = fst (run_batch E run_id netloc' keyword_rules exclude_rules batch d)"
        define results where "results = snd (run_batch E run_id netloc' keyword_rules exclude_rules batch d)"
        have rb: "run_batch E run_id netloc' keyword_rules exclude_rules batch d = (d1, results)"
          by (simp add: d1_def results_def)
        have dd: "dom (crawl_runs d1) = dom (crawl_runs d)"
          unfolding d1_def by (rule run_batch_dom)
        show ?thesis
        proof (cases "enqueue_links E netloc' visited1 (concat results) queue1")
          case (Inl e)
          with Suc.prems False \<open>build_batch E queue visited [] = Inr b\<close> b nb rb dd
          show ?thesis by simp
        next
          case (Inr queue2)
          with Suc.prems False \<open>build_batch E queue visited [] = Inr b\<close> b nb rb
          have "crawl_loop n E run_id netloc' keyword_rules exclude_rules visited1 queue2 d1 = Some (res, d')"
            by simp
          from Suc.IH [OF this] dd show ?thesis by simp
        qed
      qed
    qed
  qed
qed


lemma status_start_run:
  "run_id \<in> dom (crawl_runs d) \<Longrightarrow> status_of (exec (start_run run_id) d) run_id = Some (U ''running'')"
  by (auto simp: status_of_def update_run_def)

lemma status_finish_run:
  "run_id \<in> dom (crawl_runs d) \<Longrightarrow>
   status_of (exec (finish_run run_id success) d) run_id =
     Some (if success then U ''completed'' else U ''failed'')"
  by (auto simp: status_of_def update_run_def)

lemma crawl_run_cases:
  assumes "crawl_run n E run_id domain keywords excludes d = Some (res, d')"
  shows "(\<exists>e. res = Some e \<and> d' = exec (start_run run_id) d) \<or>
         (\<exists>d1 success. res = None \<and> d' = exec (finish_run run_id success) d1 \<and>
            dom (crawl_runs d1) = dom (crawl_runs (exec (start_run run_id) d)))"
proof -
  define d0 where "d0 = exec (start_run run_id) d"
  note defs = crawl_run_def Let_def d0_def [symmetric]
  show ?thesis
  proof (cases res)
    case (Some e)
    with assms have "d' = d0"
      unfolding defs
      by (simp split: sum.splits if_splits option.splits prod.splits del: exec.simps)
    with Some show ?thesis by (simp add: d0_def)
  next
    case None
    with assms obtain d1 r1 where
      l: "(case client_error E of Some e \<Rightarrow> Some (Some e, d0)
           | None \<Rightarrow> crawl_loop n E run_id
               (netloc (projr (urlparse E (if startswith domain (U ''http://'') \<or>
                   startswith domain (U ''https://'') then domain else U ''https://'' @ domain) [])))
               (projr (compile_rules E keywords)) (projr (compile_rules E excludes)) []
               [projr (normalise_url E (if startswith domain (U ''http://'') \<or>
                   startswith domain (U ''https://'') then domain else U ''https://'' @ domain))] d0)
          = Some (r1, d1)"
      and d': "d' = exec (finish_run run_id (r1 = None)) d1"
      unfolding defs
      by (auto split: sum.splits if_splits option.splits prod.splits simp del: exec.simps)
    have "dom (crawl_runs d1) = dom (crawl_runs d0)"
      using l crawl_loop_dom by (auto split: option.splits)
    with None d' show ?thesis unfolding d0_def by blast
  qed
qed

lemma crawl_run_outcome:
  assumes "crawl_run n E run_id domain keywords excludes d = Some (res, d')"
    and "run_id \<in> dom (crawl_runs d)"
  shows "(res \<noteq> None \<longrightarrow> status_of d' run_id = Some (U ''running'')) \<and>
         (res = None \<longrightarrow> status_of d' run_id = Some (U ''completed'') \<or>
                          status_of d' run_id = Some (U ''failed''))"
proof -
  have k: "run_id \<in> dom (crawl_runs (exec (start_run run_id) d))"
    using assms(2) by (simp add: exec_dom del: exec.simps)
  from crawl_run_cases [OF assms(1)] show ?thesis
  proof
    assume "\<exists>e. res = Some e \<and> d' = exec (start_run run_id) d"
    then show ?thesis using status_start_run [OF assms(2)] by auto
  next
    assume "\<exists>d1 success. res = None \<and> d' = exec (finish_run run_id success) d1 \<and>
            dom (crawl_runs d1) = dom (crawl_runs (exec (start_run run_id) d))"
    then obtain d1 success where r: "res = None" and d': "d' = exec (finish_run run_id success) d1"
      and dm: "dom (crawl_runs d1) = dom (crawl_runs (exec (start_run run_id) d))" by blast
    have "run_id \<in> dom (crawl_runs d1)" using k unfolding dm .
    from status_finish_run [OF this, of success] r d' show ?thesis by auto
  qed
qed

text \<open>
  C4.  The rules are compiled before the \<^verbatim>\<open>try\<close> block of \<^verbatim>\<open>crawl_run\<close>.  With the keyword
  \<^verbatim>\<open>/(/\<close>, whose pattern \<^verbatim>\<open>re.compile\<close> rejects, \<^verbatim>\<open>crawl_run\<close> raises after it has marked
  the run \<^verbatim>\<open>running\<close>, and the run is left in that status, whatever the loop bound.  A
  fault inside the \<^verbatim>\<open>try\<close> block, such as a client that cannot be constructed, marks the
  run \<^verbatim>\<open>failed\<close>, as the lemma above shows.
\<close>

theorem crawl_run_rule_error_leaves_running:
  "crawl_run n env6 0 (U ''example.com'') [U ''/(/''] [] db_pending =
     Some (Some (Exception (U ''missing ), unterminated subpattern at position 0'')),
           db_pending\<lparr>crawl_runs := [0 \<mapsto> \<lparr>run_status = U ''running'', pages_found = 0,
                                                pages_scanned = 0, error_count = 0\<rparr>]\<rparr>)"
proof -
  have h: "host_error env6 (U ''example.com'') = None" by (simp add: env6_def env0_def)
  have s: "\<not> startswith (U ''example.com'') (U ''http://'')"
          "\<not> startswith (U ''example.com'') (U ''https://'')"
          "U ''https://'' @ U ''example.com'' = U ''https://example.com''"
    by (simp_all add: startswith_def U_def)
  have c: "compile_rules env6 [U ''/(/''] =
           Inl (Exception (U ''missing ), unterminated subpattern at position 0''))"
    by (simp add: compile_rule_def re_compile_def env6_def env0_def str_strip_def isspace_def
        startswith_def endswith_def py_slice_def slice_index_def Let_def U_def)
  show ?thesis
    unfolding crawl_run_def start_pending Let_def
    by (simp add: s urlparse_seed [OF h] c del: exec.simps compile_rules.simps)
qed

section \<open>C2: snippets and the virtual page text\<close>

lemma all_matches_of_row:
  assumes "row \<in> set (all_matches_of E page_id keyword_rules segs)"
  shows "\<exists>i mr. i < length segs \<and> mr \<in> set (find_matches E (seg_text (segs ! i)) keyword_rules) \<and>
           row = \<lparr>m_page_id = page_id, m_keyword = mr_keyword mr,
                   m_matched_text = mr_matched_text mr, m_tag = seg_tag (segs ! i),
                   m_position = char_offset (segs ! i) + mr_position mr,
                   m_snippet = make_snippet E (seg_text (segs ! i)) (mr_position mr) None\<rparr>"
proof -
  from assms obtain seg mr where "seg \<in> set segs"
    and mr: "mr \<in> set (find_matches E (seg_text seg) keyword_rules)"
    and row: "row = \<lparr>m_page_id = page_id, m_keyword = mr_keyword mr,
                   m_matched_text = mr_matched_text mr, m_tag = seg_tag seg,
                   m_position = char_offset seg + mr_position mr,
                   m_snippet = make_snippet E (seg_text seg) (mr_position mr) None\<rparr>"
    by (auto simp: all_matches_of_def)
  then obtain i where "i < length segs" "segs ! i = seg" by (auto simp: in_set_conv_nth)
  with mr row show ?thesis by blast
qed

lemma page_matches_update_run [simp]: "page_matches (update_run run_id f d) = page_matches d"
  by (simp add: update_run_def split: option.splits)

lemma page_matches_update_page [simp]: "page_matches (update_page page_id f d) = page_matches d"
  by (simp add: update_page_def)

lemma scan_page_stores_matches:
  assumes "\<not> registered run_id url d"
    and "fetch E url = Inr response"
    and "contains (U ''html'') (case content_type_header response of None \<Rightarrow> [] | Some v \<Rightarrow> v)"
    and "extract_links E (response_text response) url = Inr discovered"
    and "exclude_rules = [] \<or>
         (\<exists>p. urlparse E url [] = Inr p \<and> \<not> any_match E (path p) exclude_rules)"
    and "extract_segments E (response_text response) = Inr segs"
  shows "page_matches (fst (scan_page E url run_id netloc' keyword_rules exclude_rules d)) =
         page_matches d @ all_matches_of E (length (pages d)) keyword_rules segs"
proof -
  have "fst (scan_calls E url run_id keyword_rules exclude_rules (length (pages d))) =
      [insert_matches (all_matches_of E (length (pages d)) keyword_rules segs),
       update_page_completed (length (pages d))
         (int (length (all_matches_of E (length (pages d)) keyword_rules segs)))
         (let csv = str_join (U '','')
                      (sort (remdups (map m_keyword
                         (all_matches_of E (length (pages d)) keyword_rules segs))))
          in if csv = [] then None else Some csv),
       increment_pages_scanned run_id]"
    using assms(2-6) by (auto simp: scan_calls_def scan_try_def Let_def)
  then show ?thesis
    unfolding scan_page_new [OF assms(1)]
    by (simp add: insert_page_new [OF assms(1)])
qed

lemma find_matches_c: "find_matches env_c (U ''c d'') rule_c =
    [\<lparr>mr_keyword = U ''c'', mr_matched_text = U ''c'', mr_position = 0\<rparr>]"
  "find_matches env_c (U ''ab'') rule_c = []"
  by (simp_all add: find_matches_def env_c_def rule_c_def U_def)

lemma find_matches_d: "find_matches env_d (U ''c d'') rule_d =
    [\<lparr>mr_keyword = U ''d'', mr_matched_text = U ''d'', mr_position = 2\<rparr>]"
  "find_matches env_d (U ''ab'') rule_d = []"
  by (simp_all add: find_matches_def env_d_def rule_d_def U_def)

lemma snippet_context_c: "snippet_context (settings env_c) = 120"
  by (simp add: env_c_def env1_def env0_def)

lemma snippet_context_d: "snippet_context (settings env_d) = 1"
  by (simp add: env_d_def env2_def env1_def env0_def)

lemma extract_c: "extract_segments env_c [] = Inr doc1_segments"
  using doc1_extract by (simp add: extract_segments_def env_c_def)

lemma extract_d: "extract_segments env_d [] = Inr doc1_segments"
  using doc1_extract by (simp add: extract_segments_def env_d_def env2_def)

text \<open>
  C2 as stated fails.  The worker builds the snippet from the text of the segment alone,
  so the context never reaches into a neighbouring segment, while a snippet built from
  the whole page text does.  In \<open>doc1\<close>, the keyword \<^verbatim>\<open>c\<close> matches at position 0 of the
  second segment; the worker stores the match with the absolute position 3 and the snippet
  \<^verbatim>\<open>c d\<close>, and the page text gives \<^verbatim>\<open>ab c d\<close> at position 3.
\<close>

theorem stored_snippet_counterexample:
  "extract_segments env_c [] = Inr doc1_segments \<and>
   all_matches_of env_c 0 rule_c doc1_segments =
     [\<lparr>m_page_id = 0, m_keyword = U ''c'', m_matched_text = U ''c'', m_tag = U ''div'',
       m_position = 3, m_snippet = U ''c d''\<rparr>] \<and>
   make_snippet env_c (page_text doc1_segments) 3 None = U ''ab c d'' \<and>
   U ''c d'' \<noteq> U ''ab c d''"
proof -
  have a: "all_matches_of env_c 0 rule_c doc1_segments =
     [\<lparr>m_page_id = 0, m_keyword = U ''c'', m_matched_text = U ''c'', m_tag = U ''div'',
       m_position = 3, m_snippet = U ''c d''\<rparr>]"
    unfolding all_matches_of_def doc1_segments_def
    by (simp add: find_matches_c make_snippet_def snippet_context_c py_slice_def slice_index_def
        Let_def) (simp add: U_def)
  have b: "make_snippet env_c (page_text doc1_segments) 3 None = U ''ab c d''"
    by (simp add: make_snippet_def snippet_context_c page_text_def doc1_segments_def py_slice_def
        slice_index_def Let_def U_def)
  have c: "U ''c d'' \<noteq> U ''ab c d''" by (simp add: U_def)
  from extract_c a b c show ?thesis by blast
qed

text \<open>
  C2, amended.  Every match row that the worker builds for a page comes from a match of a
  rule in the text of one segment; its position is the offset of the segment plus the
  position of the match in the segment, and its snippet is built from the text of the
  segment at the position in the segment.  That snippet equals the snippet built from the
  page text at the stored absolute position whenever the context window does not cross a
  segment boundary: the segment is the first one or the window starts inside it, and it
  is the last one or the window ends inside it.  On a page that is scanned to the end, the
  rows the worker builds are the rows it writes to the store (\<open>scan_page_stores_matches\<close>).
\<close>

theorem stored_snippet_matches_page_text:
  assumes "extract_segments E html = Inr segs"
    and "0 \<le> snippet_context (settings E)"
    and "row \<in> set (all_matches_of E page_id keyword_rules segs)"
  shows "\<exists>i mr. i < length segs \<and> mr \<in> set (find_matches E (seg_text (segs ! i)) keyword_rules)
           \<and> m_position row = char_offset (segs ! i) + mr_position mr
           \<and> m_snippet row = make_snippet E (seg_text (segs ! i)) (mr_position mr) None
           \<and> (0 \<le> mr_position mr \<and> mr_position mr \<le> int (length (seg_text (segs ! i)))
                \<and> (i = 0 \<or> snippet_context (settings E) < mr_position mr)
                \<and> (Suc i = length segs \<or>
                     mr_position mr + snippet_context (settings E)
                       < int (length (seg_text (segs ! i))))
              \<longrightarrow> m_snippet row = make_snippet E (page_text segs) (m_position row) None)"
proof -
  from all_matches_of_row [OF assms(3)] obtain i mr where i: "i < length segs"
    and mr: "mr \<in> set (find_matches E (seg_text (segs ! i)) keyword_rules)"
    and row: "row = \<lparr>m_page_id = page_id, m_keyword = mr_keyword mr,
                   m_matched_text = mr_matched_text mr, m_tag = seg_tag (segs ! i),
                   m_position = char_offset (segs ! i) + mr_position mr,
                   m_snippet = make_snippet E (seg_text (segs ! i)) (mr_position mr) None\<rparr>"
    by blast
  have "m_snippet row = make_snippet E (page_text segs) (m_position row) None"
    if "0 \<le> mr_position mr" "mr_position mr \<le> int (length (seg_text (segs ! i)))"
       "i = 0 \<or> snippet_context (settings E) < mr_position mr"
       "Suc i = length segs \<or>
          mr_position mr + snippet_context (settings E) < int (length (seg_text (segs ! i)))"
    using snippet_window [OF assms(1) i that(1,2) assms(2) that(3,4)] by (simp add: row)
  with i mr row show ?thesis by (intro exI [of _ i] exI [of _ mr]) simp
qed


theorem stored_snippet_matches_page_text_witness:
  "extract_segments env_d [] = Inr doc1_segments \<and>
   all_matches_of env_d 0 rule_d doc1_segments =
     [\<lparr>m_page_id = 0, m_keyword = U ''d'', m_matched_text = U ''d'', m_tag = U ''div'',
       m_position = 5, m_snippet = ellipsis @ U '' d''\<rparr>] \<and>
   make_snippet env_d (page_text doc1_segments) 5 None = ellipsis @ U '' d''"
proof -
  define row where "row = \<lparr>m_page_id = 0, m_keyword = U ''d'', m_matched_text = U ''d'',
       m_tag = U ''div'', m_position = 5, m_snippet = ellipsis @ U '' d''\<rparr>"
  have a: "all_matches_of env_d 0 rule_d doc1_segments = [row]"
    unfolding all_matches_of_def doc1_segments_def row_def
    by (simp add: find_matches_d make_snippet_def snippet_context_d py_slice_def slice_index_def
        Let_def) (simp add: U_def)
  have c: "0 \<le> snippet_context (settings env_d)" by (simp add: snippet_context_d)
  have r: "row \<in> set (all_matches_of env_d 0 rule_d doc1_segments)" by (simp add: a)
  from stored_snippet_matches_page_text [OF extract_d c r] obtain i mr where
    i: "i < length doc1_segments"
    and mr: "mr \<in> set (find_matches env_d (seg_text (doc1_segments ! i)) rule_d)"
    and imp: "0 \<le> mr_position mr \<and> mr_position mr \<le> int (length (seg_text (doc1_segments ! i)))
                \<and> (i = 0 \<or> snippet_context (settings env_d) < mr_position mr)
                \<and> (Suc i = length doc1_segments \<or>
                     mr_position mr + snippet_context (settings env_d)
                       < int (length (seg_text (doc1_segments ! i))))
              \<longrightarrow> m_snippet row = make_snippet env_d (page_text doc1_segments) (m_position row) None"
    by blast
  from i have "i = 0 \<or> i = 1" by (auto simp: doc1_segments_def)
  then have i1: "i = 1" and p: "mr_position mr = 2"
    using mr by (auto simp: doc1_segments_def find_matches_d)
  have "m_snippet row = make_snippet env_d (page_text doc1_segments) (m_position row) None"
    using imp by (simp add: i1 p snippet_context_d doc1_segments_def U_def)
  then have "make_snippet env_d (page_text doc1_segments) 5 None = ellipsis @ U '' d''"
    by (simp add: row_def)
  with extract_d a show ?thesis by (simp add: row_def)
qed

end
